theory Spec2Isabelle
  imports Main
begin

section \<open>Go strings: bytes, runes and the range loop\<close>

text \<open>
  A Go string is a sequence of bytes; it is modelled as a \<^typ>\<open>string\<close> (a list of
  8-bit characters). Go's \<^verbatim>\<open>int\<close> is modelled as \<^typ>\<open>int\<close>: every quantity of
  the editor (an indentation width, a byte offset, a flag value) stays far below the
  machine word's range on the inputs considered, so no wrap-around is written out.

  \<^verbatim>\<open>for i, r := range text\<close> decodes UTF-8: \<open>i\<close> is the byte offset of the rune
  \<open>r\<close>, and a byte that starts no valid encoding yields the rune \<open>0xFFFD\<close> and
  advances one byte.
\<close>

definition RuneError :: nat where
  "RuneError = 0xFFFD"

definition in_range :: "nat \<Rightarrow> nat \<Rightarrow> char \<Rightarrow> bool" where
  "in_range lo hi c = (lo \<le> of_char c \<and> (of_char c :: nat) \<le> hi)"

definition decode2 :: "nat \<Rightarrow> string \<Rightarrow> nat \<times> nat" where
  "decode2 b0 cs =
    (case cs of
       c1 # _ \<Rightarrow>
         if in_range 0x80 0xBF c1
         then ((b0 mod 0x20) * 0x40 + of_char c1 mod 0x40, 2)
         else (RuneError, 1)
     | _ \<Rightarrow> (RuneError, 1))"

definition decode3 :: "nat \<Rightarrow> string \<Rightarrow> nat \<times> nat" where
  "decode3 b0 cs =
    (case cs of
       c1 # c2 # _ \<Rightarrow>
         if in_range (if b0 = 0xE0 then 0xA0 else 0x80) (if b0 = 0xED then 0x9F else 0xBF) c1
            \<and> in_range 0x80 0xBF c2
         then ((b0 mod 0x10) * 0x1000 + (of_char c1 mod 0x40) * 0x40 + of_char c2 mod 0x40, 3)
         else (RuneError, 1)
     | _ \<Rightarrow> (RuneError, 1))"

definition decode4 :: "nat \<Rightarrow> string \<Rightarrow> nat \<times> nat" where
  "decode4 b0 cs =
    (case cs of
       c1 # c2 # c3 # _ \<Rightarrow>
         if in_range (if b0 = 0xF0 then 0x90 else 0x80) (if b0 = 0xF4 then 0x8F else 0xBF) c1
            \<and> in_range 0x80 0xBF c2 \<and> in_range 0x80 0xBF c3
         then ((b0 mod 8) * 0x40000 + (of_char c1 mod 0x40) * 0x1000
                 + (of_char c2 mod 0x40) * 0x40 + of_char c3 mod 0x40, 4)
         else (RuneError, 1)
     | _ \<Rightarrow> (RuneError, 1))"

fun DecodeRuneInString :: "string \<Rightarrow> nat \<times> nat" where
  "DecodeRuneInString [] = (RuneError, 0)"
| "DecodeRuneInString (c0 # cs) =
    (let b0 = of_char c0 :: nat in
     if b0 < 0x80 then (b0, 1)
     else if b0 < 0xC2 \<or> 0xF4 < b0 then (RuneError, 1)
     else if b0 < 0xE0 then decode2 b0 cs
     else if b0 < 0xF0 then decode3 b0 cs
     else decode4 b0 cs)"

lemma decode2_width: "1 \<le> snd (decode2 b0 cs) \<and> snd (decode2 b0 cs) \<le> Suc (length cs)"
  by (cases cs) (simp_all add: decode2_def)

lemma decode3_width: "1 \<le> snd (decode3 b0 cs) \<and> snd (decode3 b0 cs) \<le> Suc (length cs)"
proof (cases cs)
  case Nil
  then show ?thesis by (simp add: decode3_def)
next
  case (Cons c1 cs1)
  then show ?thesis by (cases cs1) (simp_all add: decode3_def)
qed

lemma decode4_width: "1 \<le> snd (decode4 b0 cs) \<and> snd (decode4 b0 cs) \<le> Suc (length cs)"
proof (cases cs)
  case Nil
  then show ?thesis by (simp add: decode4_def)
next
  case c1: (Cons c1 cs1)
  show ?thesis
  proof (cases cs1)
    case Nil
    with c1 show ?thesis by (simp add: decode4_def)
  next
    case (Cons c2 cs2)
    with c1 show ?thesis by (cases cs2) (simp_all add: decode4_def)
  qed
qed

lemma DecodeRuneInString_width:
  "s \<noteq> [] \<Longrightarrow> 1 \<le> snd (DecodeRuneInString s) \<and> snd (DecodeRuneInString s) \<le> length s"
  using decode2_width decode3_width decode4_width
  by (cases s) (simp_all add: Let_def)

function range_from :: "nat \<Rightarrow> string \<Rightarrow> (nat \<times> nat) list" where
  "range_from i s =
    (if s = [] then []
     else (i, fst (DecodeRuneInString s))
            # range_from (i + snd (DecodeRuneInString s)) (drop (snd (DecodeRuneInString s)) s))"
  by pat_completeness auto
termination
proof (relation "measure (\<lambda>(i, s). length s)")
  show "wf (measure (\<lambda>(i, s). length s))" by simp
next
  fix i :: nat and s :: string
  assume "s \<noteq> []"
  then have "1 \<le> snd (DecodeRuneInString s)" and "0 < length s"
    using DecodeRuneInString_width by auto
  then show "((i + snd (DecodeRuneInString s), drop (snd (DecodeRuneInString s)) s), (i, s))
      \<in> measure (\<lambda>(i, s). length s)"
    by simp
qed

declare range_from.simps [simp del]

lemma range_from_Nil [simp]: "range_from i [] = []"
  by (simp add: range_from.simps)

lemma range_from_nonempty:
  "s \<noteq> [] \<Longrightarrow>
     range_from i s =
       (i, fst (DecodeRuneInString s))
         # range_from (i + snd (DecodeRuneInString s)) (drop (snd (DecodeRuneInString s)) s)"
  by (subst range_from.simps) simp

definition range_string :: "string \<Rightarrow> (nat \<times> nat) list" where
  "range_string s = range_from 0 s"

text \<open>\<^verbatim>\<open>unicode.IsSpace\<close>: the Latin-1 white space, and Unicode's White_Space beyond.\<close>

definition IsSpace :: "nat \<Rightarrow> bool" where
  "IsSpace r =
    (if r \<le> 0xFF then r \<in> {0x09, 0x0A, 0x0B, 0x0C, 0x0D, 0x20, 0x85, 0xA0}
     else r = 0x1680 \<or> (0x2000 \<le> r \<and> r \<le> 0x200A) \<or> r = 0x2028 \<or> r = 0x2029
          \<or> r = 0x202F \<or> r = 0x205F \<or> r = 0x3000)"

definition HasSuffix :: "string \<Rightarrow> string \<Rightarrow> bool" where
  "HasSuffix s suffix =
    (length suffix \<le> length s \<and> drop (length s - length suffix) s = suffix)"


section \<open>Logical lines and their classification\<close>

text \<open>
  The command-line flags \<^verbatim>\<open>-l\<close>, \<^verbatim>\<open>-t\<close> and \<^verbatim>\<open>-j\<close> are package-level
  variables of the program; here they are passed explicitly.
\<close>

record flags =
  length_flag :: int
  tabstop_flag :: int
  join_flag :: bool

record line =
  text' :: string
  indent :: int
  indented :: bool
  incomplete :: bool
  blank :: bool
  tabular :: bool
  quoted :: bool

text \<open>The run-time panics the program can raise.\<close>

datatype panic =
    DivideByZero
  | SliceBounds int nat

text \<open>\<open>s[0:n]\<close> and \<open>s[n:]\<close>: the bounds are checked against the length of \<open>s\<close>.\<close>

definition slice_to :: "string \<Rightarrow> int \<Rightarrow> panic + string" where
  "slice_to s n =
    (if n < 0 \<or> int (length s) < n then Inl (SliceBounds n (length s))
     else Inr (take (nat n) s))"

definition slice_from :: "string \<Rightarrow> int \<Rightarrow> panic + string" where
  "slice_from s n =
    (if n < 0 \<or> int (length s) < n then Inl (SliceBounds n (length s))
     else Inr (drop (nat n) s))"

text \<open>Go's \<open>%\<close> truncates towards zero: the remainder has the sign of the dividend.\<close>

definition go_rem :: "int \<Rightarrow> int \<Rightarrow> int" where
  "go_rem a b = sgn a * (\<bar>a\<bar> mod \<bar>b\<bar>)"

text \<open>The local variables of \<^verbatim>\<open>readline\<close>'s scan over the text.\<close>

record locals =
  indent_acc :: int
  indentChars :: int
  lastTab :: int
  tabCount :: int
  inIndent :: bool

definition loop_body :: "flags \<Rightarrow> locals \<Rightarrow> nat \<times> nat \<Rightarrow> panic + locals" where
  "loop_body fl v ir =
    (case ir of (i, r) \<Rightarrow>
      if r = 0x09 then
        (let v1 = v\<lparr>tabCount := tabCount v + 1, lastTab := int i\<rparr> in
         if inIndent v1 then
           (if tabstop_flag fl = 0 then Inl DivideByZero
            else
              (let a = indent_acc v1 + tabstop_flag fl in
               Inr (v1\<lparr>indent_acc := a - go_rem a (tabstop_flag fl),
                        indentChars := indentChars v1 + 1\<rparr>)))
         else Inr v1)
      else if IsSpace r then
        (if inIndent v
         then Inr (v\<lparr>indent_acc := indent_acc v + 1, indentChars := indentChars v + 1\<rparr>)
         else Inr v)
      else Inr (v\<lparr>inIndent := False\<rparr>))"

fun scan :: "flags \<Rightarrow> locals \<Rightarrow> (nat \<times> nat) list \<Rightarrow> panic + locals" where
  "scan fl v [] = Inr v"
| "scan fl v (ir # irs) =
    (case loop_body fl v ir of
       Inl e \<Rightarrow> Inl e
     | Inr v' \<Rightarrow> scan fl v' irs)"

definition locals0 :: locals where
  "locals0 = \<lparr>indent_acc = 0, indentChars = 0, lastTab = 0, tabCount = 0, inIndent = True\<rparr>"

text \<open>
  \<^verbatim>\<open>readline\<close> on a line that the line editor did return (end of input is the end of
  the list of raw lines, see \<open>readlines_loop\<close>).
\<close>

definition strip_slash :: "string \<Rightarrow> string" where
  "strip_slash cstr =
    (if HasSuffix cstr [CHR 0x5C] then take (length cstr - 1) cstr else cstr)"

definition readline :: "flags \<Rightarrow> string \<Rightarrow> panic + line" where
  "readline fl cstr =
    (let txt = strip_slash cstr in
     case scan fl locals0 (range_string txt) of
       Inl e \<Rightarrow> Inl e
     | Inr v \<Rightarrow>
         (let blank_v = inIndent v;
              quoted_v = (\<not> blank_v \<and> 0 < tabCount v \<and> lastTab v + 1 = tabCount v);
              tabular_v = (\<not> blank_v \<and> 0 < tabCount v \<and> \<not> quoted_v)
          in case slice_from txt (indentChars v) of
               Inl e \<Rightarrow> Inl e
             | Inr stripped \<Rightarrow>
                 Inr \<lparr>text' = stripped,
                      indent = indent_acc v,
                      indented = (0 < indent_acc v),
                      incomplete = HasSuffix cstr [CHR 0x5C],
                      blank = blank_v,
                      tabular = tabular_v,
                      quoted = quoted_v\<rparr>))"

text \<open>
  \<^verbatim>\<open>concat\<close> updates the receiver in place; the model returns the updated line.
\<close>

definition concat_line :: "line \<Rightarrow> line \<Rightarrow> line" where
  "concat_line l r =
    (let becomesTabular = (tabular l \<or> tabular r \<or> quoted r) in
     l\<lparr>text' := text' l @ [CHR 0x20] @ text' r,
       incomplete := incomplete r,
       blank := (blank l \<and> blank r),
       tabular := becomesTabular,
       quoted := (quoted l \<and> \<not> becomesTabular)\<rparr>)"

text \<open>
  \<^verbatim>\<open>readlines\<close>: \<open>prevLine\<close> is \<open>nil\<close> until a line has been appended, and from
  then on it points to the line appended last, so it is the last element of \<open>lines\<close>;
  \<open>concat\<close> through it changes that element. The input is the list of raw lines the
  line editor returns before it signals the end of input.
\<close>

fun readlines_loop :: "flags \<Rightarrow> line list \<Rightarrow> string list \<Rightarrow> panic + line list" where
  "readlines_loop fl lines [] = Inr lines"
| "readlines_loop fl lines (cstr # input) =
    (case readline fl cstr of
       Inl e \<Rightarrow> Inl e
     | Inr currLine \<Rightarrow>
         if lines \<noteq> [] \<and> \<not> blank currLine \<and> (incomplete (last lines) \<or> join_flag fl)
         then readlines_loop fl (butlast lines @ [concat_line (last lines) currLine]) input
         else readlines_loop fl (lines @ [currLine]) input)"

definition readlines :: "flags \<Rightarrow> string list \<Rightarrow> panic + line list" where
  "readlines fl input = readlines_loop fl [] input"


section \<open>The formatter\<close>

text \<open>
  \<^verbatim>\<open>format\<close> calls two packages whose code is not part of the program:
  \<^verbatim>\<open>text.Wrap\<close> and \<^verbatim>\<open>text.Indent\<close> of \<^verbatim>\<open>github.com/kr/text\<close>, and the writer of
  \<^verbatim>\<open>text/tabwriter\<close>. They are parameters of the model: two functions on strings, and
  a writer given as a state machine whose \<open>Write\<close> and \<open>Flush\<close> return the
  new state of the writer together with the bytes it passes on to the output buffer.
  Every call into the packages is taken to return: a panic raised inside them is not
  part of the model (the writer refuses negative widths; the flags are meant to be
  positive).
\<close>

record 'w externals =
  Wrap :: "string \<Rightarrow> int \<Rightarrow> string"
  Indent :: "string \<Rightarrow> string \<Rightarrow> string"
  NewWriter :: "int \<Rightarrow> int \<Rightarrow> int \<Rightarrow> char \<Rightarrow> nat \<Rightarrow> 'w"
  Write :: "'w \<Rightarrow> string \<Rightarrow> 'w \<times> string"
  Flush :: "'w \<Rightarrow> 'w \<times> string"

definition spaces :: string where
  "spaces = replicate 256 (CHR 0x20)"

definition ats :: string where
  "ats = replicate 256 (CHR 0x40)"

text \<open>
  The \<^verbatim>\<open>switch\<close> of \<^verbatim>\<open>format\<close>: what one line that is not tabular adds to the
  buffer, before the newline that follows the switch.
\<close>

definition render :: "'w externals \<Rightarrow> flags \<Rightarrow> line \<Rightarrow> panic + string" where
  "render E fl l =
    (if blank l then Inr []
     else if quoted l then
       (let w = Wrap E (text' l) (length_flag fl - tabstop_flag fl * 2) in
        case slice_to spaces (tabstop_flag fl) of
          Inl e \<Rightarrow> Inl e
        | Inr margin \<Rightarrow> Inr (Indent E w margin))
     else if indented l then
       (case slice_to ats (indent l) of
          Inl e \<Rightarrow> Inl e
        | Inr filler \<Rightarrow>
            (let t = Wrap E (filler @ text' l) (length_flag fl) in
             case slice_to spaces (indent l) of
               Inl e \<Rightarrow> Inl e
             | Inr sp \<Rightarrow>
                 (case slice_from t (indent l) of
                    Inl e \<Rightarrow> Inl e
                  | Inr rest \<Rightarrow> Inr (sp @ rest))))
     else Inr (Wrap E (text' l) (length_flag fl)))"

text \<open>
  The body of the loop of \<^verbatim>\<open>format\<close>, on the state of the tabular writer and the
  contents of the buffer.
\<close>

definition format_body :: "'w externals \<Rightarrow> flags \<Rightarrow> 'w \<times> string \<Rightarrow> line \<Rightarrow> panic + 'w \<times> string" where
  "format_body E fl st l =
    (case st of (tabw, buf) \<Rightarrow>
      if tabular l then
        (case Write E tabw (text' l @ [CHR 0x0A]) of
           (tabw', out) \<Rightarrow> Inr (tabw', buf @ out))
      else
        (case Flush E tabw of
           (tabw', out) \<Rightarrow>
             (case render E fl l of
                Inl e \<Rightarrow> Inl e
              | Inr t \<Rightarrow> Inr (tabw', buf @ out @ t @ [CHR 0x0A]))))"

fun format_loop :: "'w externals \<Rightarrow> flags \<Rightarrow> 'w \<times> string \<Rightarrow> line list \<Rightarrow> panic + 'w \<times> string" where
  "format_loop E fl st [] = Inr st"
| "format_loop E fl st (l # ls) =
    (case format_body E fl st l of
       Inl e \<Rightarrow> Inl e
     | Inr st' \<Rightarrow> format_loop E fl st' ls)"

definition format :: "'w externals \<Rightarrow> flags \<Rightarrow> line list \<Rightarrow> panic + string" where
  "format E fl lines =
    (case format_loop E fl
            (NewWriter E (tabstop_flag fl) (tabstop_flag fl) 1 (CHR 0x20) 0, []) lines of
       Inl e \<Rightarrow> Inl e
     | Inr (tabw, buf) \<Rightarrow> Inr (buf @ snd (Flush E tabw)))"

text \<open>\<^verbatim>\<open>format(readlines(), &buf)\<close>: the bytes \<^verbatim>\<open>main\<close> then writes out.\<close>

definition ted :: "'w externals \<Rightarrow> flags \<Rightarrow> string list \<Rightarrow> panic + string" where
  "ted E fl input =
    (case readlines fl input of
       Inl e \<Rightarrow> Inl e
     | Inr lines \<Rightarrow> format E fl lines)"

section \<open>A tabular renderer after the specification\<close>

text \<open>
  Modelled from the spec: the tabular renderer. The program uses the writer of
  \<^verbatim>\<open>text/tabwriter\<close>, whose code is not among the sources; the specification
  describes it (section 4.2): it buffers the tabular lines and, when flushed, rewrites
  each buffered line so that the tab-separated fields align into columns; for each
  column index the rendered width is the maximum field width, plus one separator space,
  among the buffered lines that have a field at that index; fields are left-justified
  and padded with spaces to that width; flushing emits the buffered lines and clears
  the buffer. It stands in for the writer where a statement is about the rendered
  rows themselves.
\<close>

fun split_on :: "char \<Rightarrow> string \<Rightarrow> string list" where
  "split_on d [] = [[]]"
| "split_on d (c # cs) =
    (if c = d then [] # split_on d cs
     else (case split_on d cs of
             [] \<Rightarrow> [[c]]
           | f # fs \<Rightarrow> (c # f) # fs))"

definition buffered_rows :: "string \<Rightarrow> string list list" where
  "buffered_rows buf = map (split_on (CHR 0x09)) (butlast (split_on (CHR 0x0A) buf))"

definition column_width :: "string list list \<Rightarrow> nat \<Rightarrow> nat" where
  "column_width rows j =
    Suc (foldr (\<lambda>r m. if j < length r then max (length (r ! j)) m else m) rows 0)"

definition pad_field :: "string list list \<Rightarrow> string list \<Rightarrow> nat \<Rightarrow> string" where
  "pad_field rows r j = r ! j @ replicate (column_width rows j - length (r ! j)) (CHR 0x20)"

definition align_row :: "string list list \<Rightarrow> string list \<Rightarrow> string" where
  "align_row rows r = concat (map (pad_field rows r) [0..<length r])"

definition align :: "string \<Rightarrow> string" where
  "align buf =
    concat (map (\<lambda>r. align_row (buffered_rows buf) r @ [CHR 0x0A]) (buffered_rows buf))"

definition spec_renderer ::
  "(string \<Rightarrow> int \<Rightarrow> string) \<Rightarrow> (string \<Rightarrow> string \<Rightarrow> string) \<Rightarrow> string externals" where
  "spec_renderer W I =
    \<lparr>Wrap = W, Indent = I,
     NewWriter = (\<lambda>minwidth tabwidth padding padchar fl. []),
     Write = (\<lambda>buf s. (buf @ s, [])),
     Flush = (\<lambda>buf. ([], align buf))\<rparr>"

section \<open>Rows of output, and the wrap routine after the specification\<close>

text \<open>
  The rows of a text are its pieces between newlines. \<open>kept_within lim t\<close> says of a
  text \<open>t\<close> that the wrap routine returned for the limit \<open>lim\<close> what the
  specification asks of it: every row is at most \<open>lim\<close> wide or is a single word.
  Widths are counted in bytes.
\<close>

definition rows_of :: "string \<Rightarrow> string list" where
  "rows_of t = split_on (CHR 0x0A) t"

fun unrows :: "string list \<Rightarrow> string" where
  "unrows [] = []"
| "unrows [r] = r"
| "unrows (r # r' # rs) = r @ [CHR 0x0A] @ unrows (r' # rs)"

definition single_word :: "string \<Rightarrow> bool" where
  "single_word r = (CHR 0x20 \<notin> set r)"

definition kept_within :: "int \<Rightarrow> string \<Rightarrow> bool" where
  "kept_within lim t = (\<forall>r\<in>set (rows_of t). int (length r) \<le> lim \<or> single_word r)"

text \<open>
  Modelled from the spec: the word-wrap routine and the margin. The program calls
  \<^verbatim>\<open>text.Wrap\<close> and \<^verbatim>\<open>text.Indent\<close> of \<^verbatim>\<open>github.com/kr/text\<close>, whose code is
  not among the sources. The specification (section 4.2) has the wrap routine break
  the text into rows at white space only, each row within the limit unless a single
  word exceeds it, which then has a row to itself, with runs of white space becoming
  single spaces; and it has every row of a quoted line prefixed with the margin. The
  rows are filled greedily here. Both stand in for the packages at concrete inputs.
\<close>

definition words_of :: "string \<Rightarrow> string list" where
  "words_of t =
    filter (\<lambda>w. w \<noteq> [])
      (split_on (CHR 0x20)
         (map (\<lambda>c. if c \<in> {CHR 0x09, CHR 0x0A, CHR 0x0B, CHR 0x0C, CHR 0x0D}
                    then CHR 0x20 else c) t))"

fun fill_rows :: "nat \<Rightarrow> string \<Rightarrow> string list \<Rightarrow> string list" where
  "fill_rows lim cur [] = [cur]"
| "fill_rows lim cur (w # ws) =
    (if length cur + 1 + length w \<le> lim
     then fill_rows lim (cur @ [CHR 0x20] @ w) ws
     else cur # fill_rows lim w ws)"

definition Wrap_spec :: "string \<Rightarrow> int \<Rightarrow> string" where
  "Wrap_spec t lim =
    (case words_of t of
       [] \<Rightarrow> []
     | w # ws \<Rightarrow> unrows (fill_rows (nat lim) w ws))"


text \<open>
  The byte offsets of the tabs of a string, counted from \<open>i\<close>: an auxiliary function
  that says where the scan of \<open>readline\<close> sees a tab.
\<close>

primrec tab_positions :: "nat \<Rightarrow> string \<Rightarrow> nat list" where
  "tab_positions i [] = []"
| "tab_positions i (c # cs) =
    (if c = CHR 0x09 then i # tab_positions (Suc i) cs else tab_positions (Suc i) cs)"

text \<open>The flags' default values.\<close>

definition default_flags :: flags where
  "default_flags = \<lparr>length_flag = 120, tabstop_flag = 4, join_flag = False\<rparr>"

text \<open>The invariant of the flags of a logical line.\<close>

definition line_inv :: "line \<Rightarrow> bool" where
  "line_inv l = (\<not> (tabular l \<and> quoted l) \<and> (blank l \<longrightarrow> \<not> tabular l \<and> \<not> quoted l))"

section \<open>Classification and joining never fail\<close>

lemma loop_body_total:
  "tabstop_flag fl \<noteq> 0 \<Longrightarrow> \<exists>v'. loop_body fl v ir = Inr v'"
  by (cases ir) (simp add: loop_body_def Let_def)

lemma scan_total:
  "tabstop_flag fl \<noteq> 0 \<Longrightarrow> \<exists>v'. scan fl v irs = Inr v'"
proof (induction irs arbitrary: v)
  case Nil
  then show ?case by simp
next
  case (Cons ir irs)
  from loop_body_total [OF Cons.prems] obtain v1 where "loop_body fl v ir = Inr v1" by blast
  with Cons.IH [OF Cons.prems, of v1] show ?case by simp
qed

lemma loop_body_indentChars:
  "loop_body fl v ir = Inr v' \<Longrightarrow>
     indentChars v \<le> indentChars v' \<and> indentChars v' \<le> indentChars v + 1"
  by (cases ir) (auto simp: loop_body_def Let_def split: if_splits)

lemma scan_indentChars:
  "scan fl v irs = Inr v' \<Longrightarrow>
     indentChars v \<le> indentChars v' \<and> indentChars v' \<le> indentChars v + int (length irs)"
proof (induction irs arbitrary: v)
  case Nil
  then show ?case by simp
next
  case (Cons ir irs)
  from Cons.prems obtain v1 where b: "loop_body fl v ir = Inr v1" and s: "scan fl v1 irs = Inr v'"
    by (auto split: sum.splits)
  from loop_body_indentChars [OF b] Cons.IH [OF s] show ?case by simp
qed

lemma length_range_from: "length (range_from i s) \<le> length s"
proof (induction i s rule: range_from.induct)
  case (1 i s)
  show ?case
  proof (cases "s = []")
    case True
    then show ?thesis by simp
  next
    case False
    from DecodeRuneInString_width [OF False] "1.IH" [OF False]
    have "Suc (length (range_from (i + snd (DecodeRuneInString s))
             (drop (snd (DecodeRuneInString s)) s))) \<le> length s"
      by simp linarith
    then show ?thesis by (simp add: range_from_nonempty [OF False])
  qed
qed

lemma readline_total:
  assumes "tabstop_flag fl \<noteq> 0"
  shows "\<exists>l. readline fl cstr = Inr l"
proof -
  obtain v where v: "scan fl locals0 (range_string (strip_slash cstr)) = Inr v"
    using scan_total [OF assms] by blast
  from scan_indentChars [OF v] length_range_from [of 0 "strip_slash cstr"]
  have "0 \<le> indentChars v" "indentChars v \<le> int (length (strip_slash cstr))"
    by (simp_all add: locals0_def range_string_def)
  then obtain t where "slice_from (strip_slash cstr) (indentChars v) = Inr t"
    by (auto simp: slice_from_def)
  with v show ?thesis by (simp add: readline_def Let_def)
qed

lemma readline_inv: "readline fl cstr = Inr l \<Longrightarrow> line_inv l"
  by (auto simp: readline_def line_inv_def Let_def split: sum.splits)

lemma concat_line_inv: "line_inv l \<Longrightarrow> line_inv r \<Longrightarrow> line_inv (concat_line l r)"
  by (auto simp: concat_line_def line_inv_def Let_def)

lemma readlines_loop_append:
  "readlines_loop fl ls (xs @ ys) =
     (case readlines_loop fl ls xs of Inl e \<Rightarrow> Inl e | Inr ls' \<Rightarrow> readlines_loop fl ls' ys)"
  by (induction xs arbitrary: ls) (auto split: sum.splits)

lemma readlines_loop_total:
  "tabstop_flag fl \<noteq> 0 \<Longrightarrow> \<exists>ls'. readlines_loop fl ls input = Inr ls'"
proof (induction input arbitrary: ls)
  case Nil
  then show ?case by simp
next
  case (Cons c input)
  from readline_total [OF Cons.prems] obtain l where "readline fl c = Inr l" by blast
  with Cons.IH [OF Cons.prems] show ?case by simp
qed

lemma readlines_loop_inv:
  "readlines_loop fl ls input = Inr ls' \<Longrightarrow> \<forall>l\<in>set ls. line_inv l \<Longrightarrow> \<forall>l\<in>set ls'. line_inv l"
proof (induction input arbitrary: ls)
  case Nil
  then show ?case by simp
next
  case (Cons c input)
  from Cons.prems(1) obtain currLine where c: "readline fl c = Inr currLine"
    by (auto split: sum.splits)
  note ci = readline_inv [OF c]
  show ?case
  proof (cases "ls \<noteq> [] \<and> \<not> blank currLine \<and> (incomplete (last ls) \<or> join_flag fl)")
    case True
    with Cons.prems(1) c
    have r: "readlines_loop fl (butlast ls @ [concat_line (last ls) currLine]) input = Inr ls'"
      by simp
    from True Cons.prems(2) have "line_inv (last ls)" by simp
    then have "line_inv (concat_line (last ls) currLine)" using ci by (rule concat_line_inv)
    moreover have "\<forall>l\<in>set (butlast ls). line_inv l"
      using Cons.prems(2) by (meson in_set_butlastD)
    ultimately have "\<forall>l\<in>set (butlast ls @ [concat_line (last ls) currLine]). line_inv l"
      by auto
    from Cons.IH [OF r this] show ?thesis .
  next
    case False
    with Cons.prems(1) c have r: "readlines_loop fl (ls @ [currLine]) input = Inr ls'"
      by (simp split: if_splits)
    have "\<forall>l\<in>set (ls @ [currLine]). line_inv l" using Cons.prems(2) ci by auto
    from Cons.IH [OF r this] show ?thesis .
  qed
qed

section \<open>Joining\<close>

lemma readlines_snoc:
  "readlines fl (input @ [cstr]) =
     (case readlines fl input of
        Inl e \<Rightarrow> Inl e
      | Inr ls \<Rightarrow>
          (case readline fl cstr of
             Inl e \<Rightarrow> Inl e
           | Inr currLine \<Rightarrow>
               Inr (if ls \<noteq> [] \<and> \<not> blank currLine \<and> (incomplete (last ls) \<or> join_flag fl)
                    then butlast ls @ [concat_line (last ls) currLine]
                    else ls @ [currLine])))"
  by (simp add: readlines_def readlines_loop_append split: sum.splits)

lemma concat_line_fields:
  "concat_line l r =
      \<lparr>text' = text' l @ '' '' @ text' r,
        indent = indent l,
        indented = indented l,
        incomplete = incomplete r,
        blank = (blank l \<and> blank r),
        tabular = (tabular l \<or> tabular r \<or> quoted r),
        quoted = (quoted l \<and> \<not> (tabular l \<or> tabular r \<or> quoted r))\<rparr>"
  by (cases l) (simp add: concat_line_def Let_def)

text \<open>
  C9. Every logical line, whether \<open>readline\<close> has just classified it or \<open>readlines\<close>
  returns it after any number of merges, has \<open>tabular\<close> and \<open>quoted\<close> never both true,
  and \<open>blank\<close> implies that both are false. With a tabstop other than zero
  \<open>readlines\<close> does return its lines.
\<close>

theorem flags_exclusive:
  "(tabstop_flag fl \<noteq> 0 \<longrightarrow> (\<exists>ls. readlines fl input = Inr ls))
   \<and> (readline fl cstr = Inr l \<longrightarrow>
        \<not> (tabular l \<and> quoted l) \<and> (blank l \<longrightarrow> \<not> tabular l \<and> \<not> quoted l))
   \<and> (readlines fl input = Inr ls \<longrightarrow>
        (\<forall>l\<in>set ls. \<not> (tabular l \<and> quoted l) \<and> (blank l \<longrightarrow> \<not> tabular l \<and> \<not> quoted l)))"
proof (intro conjI impI)
  assume "tabstop_flag fl \<noteq> 0"
  then show "\<exists>ls. readlines fl input = Inr ls"
    unfolding readlines_def by (rule readlines_loop_total)
next
  assume "readline fl cstr = Inr l"
  from readline_inv [OF this] show "\<not> (tabular l \<and> quoted l)"
    by (simp add: line_inv_def)
next
  assume "readline fl cstr = Inr l" and "blank l"
  with readline_inv [of fl cstr l] show "\<not> tabular l" "\<not> quoted l"
    by (simp_all add: line_inv_def)
next
  assume "readlines fl input = Inr ls"
  then have "\<forall>l\<in>set ls. line_inv l"
    unfolding readlines_def using readlines_loop_inv [of fl "[]" input ls] by simp
  then show "\<forall>l\<in>set ls. \<not> (tabular l \<and> quoted l) \<and> (blank l \<longrightarrow> \<not> tabular l \<and> \<not> quoted l)"
    by (simp add: line_inv_def)
qed

theorem flags_exclusive_witness:
  "tabstop_flag default_flags \<noteq> 0
   \<and> readline default_flags (''a'' @ [CHR 0x09] @ ''b'') =
       Inr \<lparr>text' = ''a'' @ [CHR 0x09] @ ''b'', indent = 0, indented = False,
              incomplete = False, blank = False, tabular = True, quoted = False\<rparr>
   \<and> readlines default_flags
        [''see'' @ [CHR 0x5C], [CHR 0x09] @ ''quote'', [], [CHR 0x09] @ ''q''] =
       Inr [\<lparr>text' = ''see quote'', indent = 0, indented = False, incomplete = False,
               blank = False, tabular = True, quoted = False\<rparr>,
            \<lparr>text' = [], indent = 0, indented = False, incomplete = False,
               blank = True, tabular = False, quoted = False\<rparr>,
            \<lparr>text' = ''q'', indent = 4, indented = True, incomplete = False,
               blank = False, tabular = False, quoted = True\<rparr>]
   \<and> list_all (\<lambda>l. \<not> (tabular l \<and> quoted l)
                   \<and> (if blank l then \<not> tabular l \<and> \<not> quoted l else True))
        [\<lparr>text' = ''see quote'', indent = 0, indented = False, incomplete = False,
            blank = False, tabular = True, quoted = False\<rparr>,
         \<lparr>text' = [], indent = 0, indented = False, incomplete = False,
            blank = True, tabular = False, quoted = False\<rparr>,
         \<lparr>text' = ''q'', indent = 4, indented = True, incomplete = False,
            blank = False, tabular = False, quoted = True\<rparr>]"
proof -
  let ?input = "[''see'' @ [CHR 0x5C], [CHR 0x09] @ ''quote'', [], [CHR 0x09] @ ''q'']"
  let ?ls = "[\<lparr>text' = ''see quote'', indent = 0, indented = False, incomplete = False,
               blank = False, tabular = True, quoted = False\<rparr>,
            \<lparr>text' = [], indent = 0, indented = False, incomplete = False,
               blank = True, tabular = False, quoted = False\<rparr>,
            \<lparr>text' = ''q'', indent = 4, indented = True, incomplete = False,
               blank = False, tabular = False, quoted = True\<rparr>]"
  let ?l = "\<lparr>text' = ''a'' @ [CHR 0x09] @ ''b'', indent = 0, indented = False,
              incomplete = False, blank = False, tabular = True, quoted = False\<rparr>"
  have t: "tabstop_flag default_flags \<noteq> 0"
    by (simp add: default_flags_def)
  have r: "readline default_flags (''a'' @ [CHR 0x09] @ ''b'') = Inr ?l"
    by code_simp
  have e: "readlines default_flags ?input = Inr ?ls"
    by code_simp
  from flags_exclusive [of default_flags ?input "''a'' @ [CHR 0x09] @ ''b''" ?l ?ls] t r e
  show ?thesis by simp
qed

text \<open>
  C6. When \<open>readlines\<close> has produced the lines \<open>ls\<close> from the input so far and the
  next raw line is classified as \<open>currLine\<close>: if a previous line exists (the last of
  \<open>ls\<close>), \<open>currLine\<close> is not blank, and the previous line is incomplete or
  \<open>-j\<close> is set, then \<open>currLine\<close> is merged into the previous line (text joined by one
  space, \<open>incomplete\<close> taken from \<open>currLine\<close>, \<open>blank\<close> the conjunction,
  \<open>tabular\<close> the disjunction with \<open>currLine\<close>'s \<open>tabular\<close> and \<open>quoted\<close>,
  \<open>quoted\<close> kept only if that disjunction is false) and is not appended; otherwise
  \<open>currLine\<close> is appended. With the default flags, the line \<open>a b\<close> ending in a
  backslash, followed by \<open>c d\<close>, gives one logical line \<open>a b c d\<close> that is not
  incomplete.
\<close>

theorem merge_rule:
  "(readlines fl input = Inr ls \<longrightarrow> readline fl cstr = Inr currLine \<longrightarrow>
      readlines fl (input @ [cstr]) =
        Inr (if ls \<noteq> [] \<and> \<not> blank currLine \<and> (incomplete (last ls) \<or> join_flag fl)
             then butlast ls @
                  [\<lparr>text' = text' (last ls) @ '' '' @ text' currLine,
                    indent = indent (last ls),
                    indented = indented (last ls),
                    incomplete = incomplete currLine,
                    blank = (blank (last ls) \<and> blank currLine),
                    tabular = (tabular (last ls) \<or> tabular currLine \<or> quoted currLine),
                    quoted = (quoted (last ls)
                              \<and> \<not> (tabular (last ls) \<or> tabular currLine \<or> quoted currLine))\<rparr>]
             else ls @ [currLine]))
   \<and> readlines default_flags [''a b'' @ [CHR 0x5C], ''c d''] =
       Inr [\<lparr>text' = ''a b c d'', indent = 0, indented = False, incomplete = False,
               blank = False, tabular = False, quoted = False\<rparr>]"
proof (intro conjI impI)
  assume a: "readlines fl input = Inr ls" and b: "readline fl cstr = Inr currLine"
  show "readlines fl (input @ [cstr]) =
        Inr (if ls \<noteq> [] \<and> \<not> blank currLine \<and> (incomplete (last ls) \<or> join_flag fl)
             then butlast ls @
                  [\<lparr>text' = text' (last ls) @ '' '' @ text' currLine,
                    indent = indent (last ls),
                    indented = indented (last ls),
                    incomplete = incomplete currLine,
                    blank = (blank (last ls) \<and> blank currLine),
                    tabular = (tabular (last ls) \<or> tabular currLine \<or> quoted currLine),
                    quoted = (quoted (last ls)
                              \<and> \<not> (tabular (last ls) \<or> tabular currLine \<or> quoted currLine))\<rparr>]
             else ls @ [currLine])"
    unfolding concat_line_fields [symmetric] by (simp add: readlines_snoc a b)
next
  show "readlines default_flags [''a b'' @ [CHR 0x5C], ''c d''] =
       Inr [\<lparr>text' = ''a b c d'', indent = 0, indented = False, incomplete = False,
               blank = False, tabular = False, quoted = False\<rparr>]"
    by code_simp
qed

theorem merge_rule_witness:
  "readlines (default_flags\<lparr>join_flag := True\<rparr>) [[CHR 0x09] @ ''one''] =
      Inr [\<lparr>text' = ''one'', indent = 4, indented = True, incomplete = False,
              blank = False, tabular = False, quoted = True\<rparr>]
   \<and> readline (default_flags\<lparr>join_flag := True\<rparr>) (''two'' @ [CHR 0x09] @ ''2'' @ [CHR 0x5C]) =
      Inr \<lparr>text' = ''two'' @ [CHR 0x09] @ ''2'', indent = 0, indented = False, incomplete = True,
             blank = False, tabular = True, quoted = False\<rparr>
   \<and> readlines (default_flags\<lparr>join_flag := True\<rparr>)
        ([[CHR 0x09] @ ''one''] @ [''two'' @ [CHR 0x09] @ ''2'' @ [CHR 0x5C]]) =
      Inr [\<lparr>text' = ''one two'' @ [CHR 0x09] @ ''2'', indent = 4, indented = True,
              incomplete = True, blank = False, tabular = True, quoted = False\<rparr>]"
proof -
  have a: "readlines (default_flags\<lparr>join_flag := True\<rparr>) [[CHR 0x09] @ ''one''] =
      Inr [\<lparr>text' = ''one'', indent = 4, indented = True, incomplete = False,
              blank = False, tabular = False, quoted = True\<rparr>]"
    by code_simp
  have b: "readline (default_flags\<lparr>join_flag := True\<rparr>) (''two'' @ [CHR 0x09] @ ''2'' @ [CHR 0x5C]) =
      Inr \<lparr>text' = ''two'' @ [CHR 0x09] @ ''2'', indent = 0, indented = False, incomplete = True,
             blank = False, tabular = True, quoted = False\<rparr>"
    by code_simp
  from merge_rule [of "default_flags\<lparr>join_flag := True\<rparr>" "[[CHR 0x09] @ ''one'']" _
      "''two'' @ [CHR 0x09] @ ''2'' @ [CHR 0x5C]"] a b
  show ?thesis by (simp add: default_flags_def)
qed

lemma readlines_blank_origin:
  "readlines fl input = Inr ls \<Longrightarrow> l \<in> set ls \<Longrightarrow> blank l \<Longrightarrow>
     \<exists>cstr\<in>set input. readline fl cstr = Inr l"
proof (induction input arbitrary: ls l rule: rev_induct)
  case Nil
  then show ?case by (simp add: readlines_def)
next
  case (snoc c input)
  from snoc.prems(1) obtain ls0 currLine where
    a: "readlines fl input = Inr ls0" and b: "readline fl c = Inr currLine" and
    r: "ls = (if ls0 \<noteq> [] \<and> \<not> blank currLine \<and> (incomplete (last ls0) \<or> join_flag fl)
              then butlast ls0 @ [concat_line (last ls0) currLine]
              else ls0 @ [currLine])"
    by (auto simp: readlines_snoc split: sum.splits)
  show ?case
  proof (cases "ls0 \<noteq> [] \<and> \<not> blank currLine \<and> (incomplete (last ls0) \<or> join_flag fl)")
    case True
    have "\<not> blank (concat_line (last ls0) currLine)"
      using True by (simp add: concat_line_fields)
    with True r snoc.prems(2,3) have "l \<in> set (butlast ls0)" by auto
    then have "l \<in> set ls0" by (rule in_set_butlastD)
    from snoc.IH [OF a this snoc.prems(3)] show ?thesis by auto
  next
    case False
    with r have "ls = ls0 @ [currLine]" by (simp split: if_splits)
    with snoc.prems(2) consider "l \<in> set ls0" | "l = currLine" by auto
    then show ?thesis
    proof cases
      case 1
      from snoc.IH [OF a 1 snoc.prems(3)] show ?thesis by auto
    next
      case 2
      with b show ?thesis by auto
    qed
  qed
qed

text \<open>
  C4, as the program has it. A blank line is never merged into the line before it:
  whatever the flags, a raw line classified as blank is appended as a logical line of
  its own, and every blank logical line that \<open>readlines\<close> returns is the
  classification of one raw line by itself. The line after a blank logical line starts
  a new logical line when the blank line is not incomplete and \<open>-j\<close> is not set.
\<close>

theorem blank_never_merged:
  "(readlines fl input = Inr ls \<longrightarrow> readline fl cstr = Inr currLine \<longrightarrow> blank currLine \<longrightarrow>
      readlines fl (input @ [cstr]) = Inr (ls @ [currLine]))
   \<and> (readlines fl input = Inr ls \<longrightarrow> l \<in> set ls \<longrightarrow> blank l \<longrightarrow>
      (\<exists>c\<in>set input. readline fl c = Inr l))
   \<and> (readlines fl input = Inr ls \<longrightarrow> readline fl cstr = Inr currLine \<longrightarrow>
      ls \<noteq> [] \<longrightarrow> blank (last ls) \<longrightarrow> \<not> incomplete (last ls) \<longrightarrow> \<not> join_flag fl \<longrightarrow>
      readlines fl (input @ [cstr]) = Inr (ls @ [currLine]))"
proof (intro conjI impI)
  assume "readlines fl input = Inr ls" "readline fl cstr = Inr currLine" "blank currLine"
  then show "readlines fl (input @ [cstr]) = Inr (ls @ [currLine])"
    by (simp add: readlines_snoc)
next
  assume "readlines fl input = Inr ls" "l \<in> set ls" "blank l"
  then show "\<exists>c\<in>set input. readline fl c = Inr l"
    by (rule readlines_blank_origin)
next
  assume "readlines fl input = Inr ls" "readline fl cstr = Inr currLine"
    "\<not> incomplete (last ls)" "\<not> join_flag fl"
  then show "readlines fl (input @ [cstr]) = Inr (ls @ [currLine])"
    by (simp add: readlines_snoc)
qed

theorem blank_never_merged_witness:
  "readlines default_flags [''one'' @ [CHR 0x5C], ''  ''] =
     Inr [\<lparr>text' = ''one'', indent = 0, indented = False, incomplete = True,
             blank = False, tabular = False, quoted = False\<rparr>,
          \<lparr>text' = [], indent = 2, indented = True, incomplete = False,
             blank = True, tabular = False, quoted = False\<rparr>]
   \<and> readlines default_flags ([''one'' @ [CHR 0x5C], ''  ''] @ [''two'']) =
     Inr [\<lparr>text' = ''one'', indent = 0, indented = False, incomplete = True,
             blank = False, tabular = False, quoted = False\<rparr>,
          \<lparr>text' = [], indent = 2, indented = True, incomplete = False,
             blank = True, tabular = False, quoted = False\<rparr>,
          \<lparr>text' = ''two'', indent = 0, indented = False, incomplete = False,
             blank = False, tabular = False, quoted = False\<rparr>]
   \<and> (\<exists>c\<in>set [''one'' @ [CHR 0x5C], ''  ''].
         readline default_flags c =
           Inr \<lparr>text' = [], indent = 2, indented = True, incomplete = False,
                  blank = True, tabular = False, quoted = False\<rparr>)"
proof -
  have a: "readlines default_flags [''one'' @ [CHR 0x5C]] =
     Inr [\<lparr>text' = ''one'', indent = 0, indented = False, incomplete = True,
             blank = False, tabular = False, quoted = False\<rparr>]"
    by code_simp
  have b: "readline default_flags ''  '' =
     Inr \<lparr>text' = [], indent = 2, indented = True, incomplete = False,
            blank = True, tabular = False, quoted = False\<rparr>"
    by code_simp
  have c: "readline default_flags ''two'' =
     Inr \<lparr>text' = ''two'', indent = 0, indented = False, incomplete = False,
            blank = False, tabular = False, quoted = False\<rparr>"
    by code_simp
  have j: "\<not> join_flag default_flags"
    by (simp add: default_flags_def)
  from blank_never_merged [of default_flags "[''one'' @ [CHR 0x5C]]" _ "''  ''"] a b
  have s1: "readlines default_flags ([''one'' @ [CHR 0x5C]] @ [''  '']) =
     Inr [\<lparr>text' = ''one'', indent = 0, indented = False, incomplete = True,
             blank = False, tabular = False, quoted = False\<rparr>,
          \<lparr>text' = [], indent = 2, indented = True, incomplete = False,
             blank = True, tabular = False, quoted = False\<rparr>]"
    by simp
  from blank_never_merged [of default_flags "[''one'' @ [CHR 0x5C], ''  '']" _ "''two''" _
      "\<lparr>text' = [], indent = 2, indented = True, incomplete = False,
             blank = True, tabular = False, quoted = False\<rparr>"] s1 c j
  show ?thesis by simp
qed

theorem blank_never_merged_counterexample:
  "readline default_flags [CHR 0x5C] =
     Inr \<lparr>text' = [], indent = 0, indented = False, incomplete = True,
            blank = True, tabular = False, quoted = False\<rparr>
   \<and> readlines default_flags [[CHR 0x5C], ''abc''] =
     Inr [\<lparr>text' = '' abc'', indent = 0, indented = False, incomplete = False,
             blank = False, tabular = False, quoted = False\<rparr>]
   \<and> readlines (default_flags\<lparr>join_flag := True\<rparr>) ['''', ''abc''] =
     Inr [\<lparr>text' = '' abc'', indent = 0, indented = False, incomplete = False,
             blank = False, tabular = False, quoted = False\<rparr>]"
  by code_simp

section \<open>A continuation on the last line\<close>

lemma strip_slash_snoc: "strip_slash (r @ [CHR 0x5C]) = r"
  by (simp add: strip_slash_def HasSuffix_def)

lemma strip_slash_id: "\<not> HasSuffix r [CHR 0x5C] \<Longrightarrow> strip_slash r = r"
  by (simp add: strip_slash_def)

lemma readline_slash_fields:
  "readline fl (r @ [CHR 0x5C]) = Inr l \<Longrightarrow>
     incomplete l \<and> (\<exists>n\<le>length r. text' l = drop n r)"
proof -
  assume a: "readline fl (r @ [CHR 0x5C]) = Inr l"
  then obtain v t where v: "scan fl locals0 (range_string r) = Inr v"
    and t: "slice_from r (indentChars v) = Inr t"
    and l: "text' l = t" "incomplete l = HasSuffix (r @ [CHR 0x5C]) [CHR 0x5C]"
    by (auto simp: readline_def strip_slash_snoc Let_def split: sum.splits)
  from t have "t = drop (nat (indentChars v)) r" "nat (indentChars v) \<le> length r"
    by (auto simp: slice_from_def split: if_splits)
  with l show ?thesis by (auto simp: HasSuffix_def)
qed

lemma readline_slash_same:
  assumes "\<not> HasSuffix r [CHR 0x5C]" and "readline fl r = Inr l0"
  shows "readline fl (r @ [CHR 0x5C]) = Inr (l0\<lparr>incomplete := True\<rparr>)"
  using assms
  by (auto simp: readline_def strip_slash_snoc strip_slash_id Let_def HasSuffix_def
      split: sum.splits)

lemma render_incomplete: "render E fl (l\<lparr>incomplete := b\<rparr>) = render E fl l"
  by (simp add: render_def Let_def split: sum.splits)

lemma format_body_incomplete:
  "format_body E fl st (l\<lparr>incomplete := b\<rparr>) = format_body E fl st l"
  by (cases st) (simp add: format_body_def render_incomplete)

lemma format_loop_incomplete:
  "format_loop E fl st (map (\<lambda>l. l\<lparr>incomplete := b\<rparr>) ls) = format_loop E fl st ls"
  by (induction ls arbitrary: st) (simp_all add: format_body_incomplete split: sum.splits)

text \<open>
  C10, as the program has it. A last raw line that ends with a backslash is classified
  with the backslash stripped and \<open>incomplete\<close> set, exactly as the same line without
  the backslash would be but for that flag. \<open>readlines\<close> then treats it like any other
  line: it is appended, or, when it is not blank and the line before it is incomplete
  or \<open>-j\<close> is set, merged into that line. Either way the last logical line is
  incomplete when the input ends, nothing is read after it, and the formatter never looks
  at the flag.
\<close>

theorem trailing_continuation:
  "(readline fl (r @ [CHR 0x5C]) = Inr l \<longrightarrow>
      incomplete l \<and> (\<exists>n\<le>length r. text' l = drop n r))
   \<and> (\<not> HasSuffix r [CHR 0x5C] \<longrightarrow> readline fl r = Inr l0 \<longrightarrow>
      readline fl (r @ [CHR 0x5C]) = Inr (l0\<lparr>incomplete := True\<rparr>))
   \<and> (readlines fl input = Inr ls \<longrightarrow> readline fl (r @ [CHR 0x5C]) = Inr l \<longrightarrow>
      (\<exists>ls'. readlines fl (input @ [r @ [CHR 0x5C]]) = Inr ls' \<and> ls' \<noteq> []
          \<and> incomplete (last ls')
          \<and> (if ls \<noteq> [] \<and> \<not> blank l \<and> (incomplete (last ls) \<or> join_flag fl)
              then ls' = butlast ls @ [concat_line (last ls) l]
              else ls' = ls @ [l])))
   \<and> format E fl (map (\<lambda>l. l\<lparr>incomplete := b\<rparr>) ls) = format E fl ls"
proof (intro conjI impI)
  assume "readline fl (r @ [CHR 0x5C]) = Inr l"
  from readline_slash_fields [OF this]
  show "incomplete l" and "\<exists>n\<le>length r. text' l = drop n r" by simp_all
next
  assume "\<not> HasSuffix r [CHR 0x5C]" and "readline fl r = Inr l0"
  then show "readline fl (r @ [CHR 0x5C]) = Inr (l0\<lparr>incomplete := True\<rparr>)"
    by (rule readline_slash_same)
next
  assume a: "readlines fl input = Inr ls" and b: "readline fl (r @ [CHR 0x5C]) = Inr l"
  from readline_slash_fields [OF b] have i: "incomplete l" by simp
  show "\<exists>ls'. readlines fl (input @ [r @ [CHR 0x5C]]) = Inr ls' \<and> ls' \<noteq> []
          \<and> incomplete (last ls')
          \<and> (if ls \<noteq> [] \<and> \<not> blank l \<and> (incomplete (last ls) \<or> join_flag fl)
              then ls' = butlast ls @ [concat_line (last ls) l]
              else ls' = ls @ [l])"
    using a b i by (simp add: readlines_snoc concat_line_fields)
next
  show "format E fl (map (\<lambda>l. l\<lparr>incomplete := b\<rparr>) ls) = format E fl ls"
    by (simp add: format_def format_loop_incomplete)
qed

theorem trailing_continuation_witness:
  "\<not> HasSuffix ''  tail'' [CHR 0x5C]
   \<and> readline default_flags (''  tail'' @ [CHR 0x5C]) =
       Inr \<lparr>text' = ''tail'', indent = 2, indented = True, incomplete = True,
              blank = False, tabular = False, quoted = False\<rparr>
   \<and> readlines default_flags ([''head''] @ [''  tail'' @ [CHR 0x5C]]) =
       Inr [\<lparr>text' = ''head'', indent = 0, indented = False, incomplete = False,
               blank = False, tabular = False, quoted = False\<rparr>,
            \<lparr>text' = ''tail'', indent = 2, indented = True, incomplete = True,
               blank = False, tabular = False, quoted = False\<rparr>]"
proof -
  have h: "\<not> HasSuffix ''  tail'' [CHR 0x5C]"
    by (simp add: HasSuffix_def)
  have a: "readline default_flags ''  tail'' =
       Inr \<lparr>text' = ''tail'', indent = 2, indented = True, incomplete = False,
              blank = False, tabular = False, quoted = False\<rparr>"
    by code_simp
  have b: "readlines default_flags [''head''] =
       Inr [\<lparr>text' = ''head'', indent = 0, indented = False, incomplete = False,
               blank = False, tabular = False, quoted = False\<rparr>]"
    by code_simp
  have j: "\<not> join_flag default_flags"
    by (simp add: default_flags_def)
  have c: "readline default_flags (''  tail'' @ [CHR 0x5C]) =
       Inr (\<lparr>text' = ''tail'', indent = 2, indented = True, incomplete = False,
              blank = False, tabular = False, quoted = False\<rparr>\<lparr>incomplete := True\<rparr>)"
    using trailing_continuation [of default_flags "''  tail''" _
      "\<lparr>text' = ''tail'', indent = 2, indented = True, incomplete = False,
              blank = False, tabular = False, quoted = False\<rparr>", THEN conjunct2, THEN conjunct1]
      h a by blast
  from trailing_continuation [of default_flags "''  tail''"
      "\<lparr>text' = ''tail'', indent = 2, indented = True, incomplete = True,
              blank = False, tabular = False, quoted = False\<rparr>" _ "[''head'']"
      "[\<lparr>text' = ''head'', indent = 0, indented = False, incomplete = False,
               blank = False, tabular = False, quoted = False\<rparr>]",
      THEN conjunct2, THEN conjunct2, THEN conjunct1] b c j
  have d: "readlines default_flags ([''head''] @ [''  tail'' @ [CHR 0x5C]]) =
       Inr [\<lparr>text' = ''head'', indent = 0, indented = False, incomplete = False,
               blank = False, tabular = False, quoted = False\<rparr>,
            \<lparr>text' = ''tail'', indent = 2, indented = True, incomplete = True,
               blank = False, tabular = False, quoted = False\<rparr>]"
    by auto
  from h c d show ?thesis by simp
qed

theorem trailing_continuation_counterexample:
  "readlines default_flags [''a'' @ [CHR 0x5C]] =
     Inr [\<lparr>text' = ''a'', indent = 0, indented = False, incomplete = True,
             blank = False, tabular = False, quoted = False\<rparr>]
   \<and> readlines default_flags [''a'' @ [CHR 0x5C], ''b'' @ [CHR 0x5C]] =
     Inr [\<lparr>text' = ''a b'', indent = 0, indented = False, incomplete = True,
             blank = False, tabular = False, quoted = False\<rparr>]"
  by code_simp

section \<open>Blank lines\<close>

lemma loop_body_inIndent:
  "loop_body fl v ir = Inr v' \<Longrightarrow> inIndent v' = (inIndent v \<and> IsSpace (snd ir))"
  by (cases ir) (auto simp: loop_body_def Let_def IsSpace_def split: if_splits)

lemma scan_inIndent:
  "scan fl v irs = Inr v' \<Longrightarrow> inIndent v' = (inIndent v \<and> (\<forall>ir\<in>set irs. IsSpace (snd ir)))"
proof (induction irs arbitrary: v)
  case Nil
  then show ?case by simp
next
  case (Cons ir irs)
  from Cons.prems obtain v1 where b: "loop_body fl v ir = Inr v1" and s: "scan fl v1 irs = Inr v'"
    by (auto split: sum.splits)
  from loop_body_inIndent [OF b] Cons.IH [OF s] show ?case by auto
qed

lemma readline_blank:
  "readline fl cstr = Inr l \<Longrightarrow>
     blank l = (\<forall>ir\<in>set (range_string (strip_slash cstr)). IsSpace (snd ir))"
proof -
  assume "readline fl cstr = Inr l"
  then obtain v where v: "scan fl locals0 (range_string (strip_slash cstr)) = Inr v"
    and l: "blank l = inIndent v"
    by (auto simp: readline_def Let_def split: sum.splits)
  from scan_inIndent [OF v] l show ?thesis by (simp add: locals0_def)
qed

lemma format_body_blank:
  "blank l \<Longrightarrow> \<not> tabular l \<Longrightarrow>
     format_body E fl (tabw, buf) l =
       Inr (fst (Flush E tabw), buf @ snd (Flush E tabw) @ [CHR 0x0A])"
  by (simp add: format_body_def render_def split: prod.splits)

lemma readlines_inv:
  "readlines fl input = Inr ls \<Longrightarrow> l \<in> set ls \<Longrightarrow> line_inv l"
  unfolding readlines_def using readlines_loop_inv [of fl "[]" input ls] by simp

lemma readlines_single:
  "readline fl cstr = Inr l \<Longrightarrow> readlines fl [cstr] = Inr [l]"
  by (simp add: readlines_def)

text \<open>
  C3, as the program has it. A line is blank exactly when every rune of it is white
  space. For a blank logical line the formatter flushes the tabular writer and then
  writes one newline, an empty row of output: it writes none of the line's text and
  does not call the wrap routine, but the newline that follows the \<open>switch\<close> is written
  for blank lines too. A blank line formatted alone gives that newline (between what the
  two flushes of the empty writer emit).
\<close>

theorem blank_line_newline:
  "(readline fl cstr = Inr l \<longrightarrow>
      blank l = (\<forall>ir\<in>set (range_string (strip_slash cstr)). IsSpace (snd ir)))
   \<and> (readlines fl input = Inr ls \<longrightarrow> l \<in> set ls \<longrightarrow> blank l \<longrightarrow>
        format_body E fl (tabw, buf) l =
          Inr (fst (Flush E tabw), buf @ snd (Flush E tabw) @ [CHR 0x0A]))
   \<and> (readline fl cstr = Inr l \<longrightarrow> blank l \<longrightarrow>
        ted E fl [cstr] =
          Inr (snd (Flush E (NewWriter E (tabstop_flag fl) (tabstop_flag fl) 1 (CHR 0x20) 0))
               @ [CHR 0x0A]
               @ snd (Flush E (fst (Flush E
                   (NewWriter E (tabstop_flag fl) (tabstop_flag fl) 1 (CHR 0x20) 0))))))"
proof (intro conjI impI)
  assume "readline fl cstr = Inr l"
  then show "blank l = (\<forall>ir\<in>set (range_string (strip_slash cstr)). IsSpace (snd ir))"
    by (rule readline_blank)
next
  assume a: "readlines fl input = Inr ls" "l \<in> set ls" and b: "blank l"
  from readlines_inv [OF a] b have "\<not> tabular l" by (simp add: line_inv_def)
  with b show "format_body E fl (tabw, buf) l =
          Inr (fst (Flush E tabw), buf @ snd (Flush E tabw) @ [CHR 0x0A])"
    by (rule format_body_blank)
next
  assume a: "readline fl cstr = Inr l" and b: "blank l"
  from readline_inv [OF a] b have t: "\<not> tabular l" by (simp add: line_inv_def)
  show "ted E fl [cstr] =
          Inr (snd (Flush E (NewWriter E (tabstop_flag fl) (tabstop_flag fl) 1 (CHR 0x20) 0))
               @ [CHR 0x0A]
               @ snd (Flush E (fst (Flush E
                   (NewWriter E (tabstop_flag fl) (tabstop_flag fl) 1 (CHR 0x20) 0)))))"
    by (simp add: ted_def readlines_single [OF a] format_def format_body_blank [OF b t])
qed

theorem blank_line_newline_witness:
  "readline default_flags ''   '' =
     Inr \<lparr>text' = [], indent = 3, indented = True, incomplete = False,
            blank = True, tabular = False, quoted = False\<rparr>
   \<and> list_all (\<lambda>ir. IsSpace (snd ir)) (range_string (strip_slash ''   ''))
   \<and> readlines default_flags [''top'', ''   ''] =
     Inr [\<lparr>text' = ''top'', indent = 0, indented = False, incomplete = False,
             blank = False, tabular = False, quoted = False\<rparr>,
          \<lparr>text' = [], indent = 3, indented = True, incomplete = False,
             blank = True, tabular = False, quoted = False\<rparr>]
   \<and> (\<forall>(E :: 'w externals) tabw buf.
         format_body E default_flags (tabw, buf)
           \<lparr>text' = [], indent = 3, indented = True, incomplete = False,
              blank = True, tabular = False, quoted = False\<rparr> =
         Inr (fst (Flush E tabw), buf @ snd (Flush E tabw) @ [CHR 0x0A]))
   \<and> (\<forall>E :: 'w externals. ted E default_flags [''   ''] =
          Inr (snd (Flush E (NewWriter E 4 4 1 (CHR 0x20) 0))
               @ [CHR 0x0A]
               @ snd (Flush E (fst (Flush E (NewWriter E 4 4 1 (CHR 0x20) 0))))))"
proof -
  let ?l = "\<lparr>text' = [], indent = 3, indented = True, incomplete = False,
            blank = True, tabular = False, quoted = False\<rparr>"
  let ?ls = "[\<lparr>text' = ''top'', indent = 0, indented = False, incomplete = False,
             blank = False, tabular = False, quoted = False\<rparr>, ?l]"
  have a: "readline default_flags ''   '' = Inr ?l"
    by code_simp
  have r: "readlines default_flags [''top'', ''   ''] = Inr ?ls"
    by code_simp
  have w: "list_all (\<lambda>ir. IsSpace (snd ir)) (range_string (strip_slash ''   ''))"
    using blank_line_newline [of default_flags "''   ''" ?l, THEN conjunct1] a
    by (simp add: list_all_iff)
  have f: "format_body E default_flags (tabw, buf) ?l =
         Inr (fst (Flush E tabw), buf @ snd (Flush E tabw) @ [CHR 0x0A])"
    for E :: "'w externals" and tabw buf
    using blank_line_newline [of default_flags _ ?l "[''top'', ''   '']" ?ls E tabw buf,
        THEN conjunct2, THEN conjunct1] r
    by simp
  have "ted E default_flags [''   ''] =
          Inr (snd (Flush E (NewWriter E 4 4 1 (CHR 0x20) 0))
               @ [CHR 0x0A]
               @ snd (Flush E (fst (Flush E (NewWriter E 4 4 1 (CHR 0x20) 0)))))"
    for E :: "'w externals"
    using blank_line_newline [of default_flags "''   ''" _ _ _ E, THEN conjunct2, THEN conjunct2] a
    by (simp add: default_flags_def)
  with a w r f show ?thesis by simp
qed

theorem blank_line_newline_counterexample:
  "\<forall>E :: 'w externals. ted E default_flags [''   ''] \<noteq> Inr []"
proof
  fix E :: "'w externals"
  have a: "readline default_flags ''   '' =
     Inr \<lparr>text' = [], indent = 3, indented = True, incomplete = False,
            blank = True, tabular = False, quoted = False\<rparr>"
    by code_simp
  show "ted E default_flags [''   ''] \<noteq> Inr []"
    by (simp add: ted_def readlines_single [OF a] format_def format_body_blank)
qed

section \<open>The formatter's scratch strings\<close>

lemma range_from_ascii:
  "(of_char c :: nat) < 0x80 \<Longrightarrow> range_from i (c # cs) = (i, of_char c) # range_from (Suc i) cs"
  by (simp add: range_from_nonempty Let_def)

lemma loop_body_space:
  "inIndent v \<Longrightarrow>
     loop_body fl v (i, 0x20) =
       Inr (v\<lparr>indent_acc := indent_acc v + 1, indentChars := indentChars v + 1\<rparr>)"
  by (simp add: loop_body_def IsSpace_def)

lemma scan_spaces:
  "inIndent v \<Longrightarrow>
     scan fl v (range_from i (replicate n (CHR 0x20) @ rest)) =
       scan fl (v\<lparr>indent_acc := indent_acc v + int n, indentChars := indentChars v + int n\<rparr>)
         (range_from (i + n) rest)"
proof (induction n arbitrary: v i)
  case 0
  then show ?case by simp
next
  case (Suc n)
  let ?v1 = "v\<lparr>indent_acc := indent_acc v + 1, indentChars := indentChars v + 1\<rparr>"
  have "scan fl v (range_from i (replicate (Suc n) (CHR 0x20) @ rest)) =
      scan fl ?v1 (range_from (Suc i) (replicate n (CHR 0x20) @ rest))"
    using Suc.prems by (simp add: range_from_ascii loop_body_space)
  also have "\<dots> = scan fl (?v1\<lparr>indent_acc := indent_acc ?v1 + int n,
        indentChars := indentChars ?v1 + int n\<rparr>) (range_from (Suc i + n) rest)"
    using Suc.prems by (intro Suc.IH) simp
  finally show ?case by (simp add: ac_simps)
qed

lemma readline_spaces_x:
  "readline fl (replicate n (CHR 0x20) @ ''x'') =
     Inr \<lparr>text' = ''x'', indent = int n, indented = (0 < n), incomplete = False,
            blank = False, tabular = False, quoted = False\<rparr>"
proof -
  have s: "strip_slash (replicate n (CHR 0x20) @ ''x'') = replicate n (CHR 0x20) @ ''x''"
    by (simp add: strip_slash_def HasSuffix_def)
  have "scan fl locals0 (range_string (replicate n (CHR 0x20) @ ''x'')) =
      Inr \<lparr>indent_acc = int n, indentChars = int n, lastTab = 0, tabCount = 0,
             inIndent = False\<rparr>"
    unfolding range_string_def
    by (subst scan_spaces)
       (simp_all add: locals0_def range_from_ascii loop_body_def IsSpace_def)
  then show ?thesis
    by (simp add: readline_def s Let_def slice_from_def HasSuffix_def)
qed

lemma length_ats: "length ats = 256"
  by (simp add: ats_def)


lemma slice_to_beyond: "int (length s) < n \<Longrightarrow> slice_to s n = Inl (SliceBounds n (length s))"
  by (simp add: slice_to_def)

lemma render_wide_indent:
  "\<not> blank l \<Longrightarrow> \<not> quoted l \<Longrightarrow> indented l \<Longrightarrow> 256 < indent l \<Longrightarrow>
     render E fl l = Inl (SliceBounds (indent l) 256)"
  by (simp add: render_def slice_to_beyond length_ats)

lemma wide_indent_panics:
  "ted E fl [replicate (257 + n) (CHR 0x20) @ ''x''] = Inl (SliceBounds (257 + int n) 256)"
proof -
  let ?l = "\<lparr>text' = ''x'', indent = 257 + int n, indented = True, incomplete = False,
            blank = False, tabular = False, quoted = False\<rparr>"
  have a: "readline fl (replicate (257 + n) (CHR 0x20) @ ''x'') = Inr ?l"
    by (simp add: readline_spaces_x)
  have "render E fl ?l = Inl (SliceBounds (257 + int n) 256)"
    by (subst render_wide_indent) simp_all
  then have "format E fl [?l] = Inl (SliceBounds (257 + int n) 256)"
    by (simp add: format_def format_body_def split: prod.splits)
  then show ?thesis
    by (simp add: ted_def readlines_single [OF a])
qed

text \<open>
  C2 fails on the program. \<open>ats\<close> and \<open>spaces\<close> are 256 bytes long and \<open>format\<close>
  slices them by the line's indent without a check: a line that starts with more than
  256 spaces is classified as an indented line, and \<open>ats[0:line.indent]\<close> panics on it
  (slice bounds out of range), for every length, every tabstop that is not negative,
  with or without \<open>-j\<close>, and whatever the wrap routine and the tabular writer do.
\<close>

theorem format_panics_on_wide_indent:
  "readline \<lparr>length_flag = L, tabstop_flag = int t, join_flag = j\<rparr>
       (replicate (257 + n) (CHR 0x20) @ ''x'') =
     Inr \<lparr>text' = ''x'', indent = 257 + int n, indented = True, incomplete = False,
            blank = False, tabular = False, quoted = False\<rparr>
   \<and> ted E \<lparr>length_flag = L, tabstop_flag = int t, join_flag = j\<rparr>
       [replicate (257 + n) (CHR 0x20) @ ''x''] = Inl (SliceBounds (257 + int n) 256)"
  by (simp add: readline_spaces_x wide_indent_panics)

section \<open>Wrapping by category\<close>






lemma format_body_tabular:
  "tabular l \<Longrightarrow>
     format_body E fl (tabw, buf) l =
       Inr (fst (Write E tabw (text' l @ [CHR 0x0A])),
            buf @ snd (Write E tabw (text' l @ [CHR 0x0A])))"
  by (simp add: format_body_def split: prod.splits)

lemma format_body_not_tabular:
  "\<not> tabular l \<Longrightarrow>
     format_body E fl (tabw, buf) l =
       (case render E fl l of
          Inl e \<Rightarrow> Inl e
        | Inr t \<Rightarrow> Inr (fst (Flush E tabw), buf @ snd (Flush E tabw) @ t @ [CHR 0x0A]))"
  by (simp add: format_body_def split: prod.splits sum.splits)












lemma ted_single_not_tabular:
  "readline fl cstr = Inr l \<Longrightarrow> \<not> tabular l \<Longrightarrow> render E fl l = Inr t \<Longrightarrow>
     ted E fl [cstr] =
       Inr (snd (Flush E (NewWriter E (tabstop_flag fl) (tabstop_flag fl) 1 (CHR 0x20) 0))
            @ t @ [CHR 0x0A]
            @ snd (Flush E (fst (Flush E
                (NewWriter E (tabstop_flag fl) (tabstop_flag fl) 1 (CHR 0x20) 0)))))"
  by (simp add: ted_def readlines_single format_def format_body_not_tabular split: prod.splits)

section \<open>Where the tabs of a line are\<close>

lemma of_char_tab: "(of_char c :: nat) = 9 \<longleftrightarrow> c = CHR 0x09"
proof -
  have "(of_char (CHR 0x09) :: nat) = 9" by simp
  then show ?thesis by (metis of_char_eq_iff)
qed

lemma in_range_not_tab: "in_range lo hi c \<Longrightarrow> 0x80 \<le> lo \<Longrightarrow> c \<noteq> CHR 0x09"
  by (auto simp: in_range_def)

lemma RuneError_not_tab: "RuneError \<noteq> 9"
  by (simp add: RuneError_def)

lemma high_part_not_tab: "m \<noteq> 0 \<Longrightarrow> 0x40 \<le> d \<Longrightarrow> m * d + x \<noteq> (9::nat)"
proof -
  assume "m \<noteq> 0" and d: "0x40 \<le> d"
  then obtain m' where "m = Suc m'" by (cases m) auto
  then have "d \<le> m * d" by simp
  with d show ?thesis by linarith
qed

lemma mod32_nonzero: "(0xC2::nat) \<le> b \<Longrightarrow> b < 0xE0 \<Longrightarrow> b mod 0x20 \<noteq> 0"
proof
  assume a: "(0xC2::nat) \<le> b" "b < 0xE0" and "b mod 0x20 = 0"
  then obtain k where k: "b = 0x20 * k" by (auto simp: mod_eq_0_iff_dvd)
  with a have "7 \<le> k" "k < 7" by simp_all
  then show False by simp
qed

lemma mod64_nonzero: "(0x90::nat) \<le> b \<Longrightarrow> b \<le> 0xBF \<Longrightarrow> b mod 0x40 \<noteq> 0"
proof
  assume a: "(0x90::nat) \<le> b" "b \<le> 0xBF" and "b mod 0x40 = 0"
  then obtain k where k: "b = 0x40 * k" by (auto simp: mod_eq_0_iff_dvd)
  with a have "3 \<le> k" "k < 3" by simp_all
  then show False by simp
qed

lemma mod16_zero: "(0xE0::nat) \<le> b \<Longrightarrow> b < 0xF0 \<Longrightarrow> b mod 0x10 = 0 \<Longrightarrow> b = 0xE0"
proof -
  assume a: "(0xE0::nat) \<le> b" "b < 0xF0" and "b mod 0x10 = 0"
  then obtain k where k: "b = 0x10 * k" by (auto simp: mod_eq_0_iff_dvd)
  with a have "14 \<le> k" "k < 15" by simp_all
  then have "k = 14" by simp
  with k show ?thesis by simp
qed

lemma mod8_zero: "(0xF0::nat) \<le> b \<Longrightarrow> b \<le> 0xF4 \<Longrightarrow> b mod 8 = 0 \<Longrightarrow> b = 0xF0"
proof -
  assume a: "(0xF0::nat) \<le> b" "b \<le> 0xF4" and "b mod 8 = 0"
  then obtain k where k: "b = 8 * k" by (auto simp: mod_eq_0_iff_dvd)
  with a have "30 \<le> k" "k < 31" by simp_all
  then have "k = 30" by simp
  with k show ?thesis by simp
qed

lemma decode2_rune: "0xC2 \<le> b0 \<Longrightarrow> b0 < 0xE0 \<Longrightarrow> fst (decode2 b0 cs) \<noteq> 9"
proof -
  assume "0xC2 \<le> b0" "b0 < 0xE0"
  then have m: "b0 mod 0x20 \<noteq> 0" by (rule mod32_nonzero)
  show ?thesis
  proof (cases cs)
    case Nil
    then show ?thesis by (simp add: decode2_def RuneError_not_tab)
  next
    case (Cons c1 cs1)
    from high_part_not_tab [OF m, of "0x40" "of_char c1 mod 0x40"]
    show ?thesis by (simp add: Cons decode2_def RuneError_not_tab)
  qed
qed

lemma decode3_rune: "0xE0 \<le> b0 \<Longrightarrow> b0 < 0xF0 \<Longrightarrow> fst (decode3 b0 cs) \<noteq> 9"
proof -
  assume b: "0xE0 \<le> b0" "b0 < 0xF0"
  show ?thesis
  proof (cases cs)
    case Nil
    then show ?thesis by (simp add: decode3_def RuneError_not_tab)
  next
    case c1: (Cons c1 cs1)
    show ?thesis
    proof (cases cs1)
      case Nil
      with c1 show ?thesis by (simp add: decode3_def RuneError_not_tab)
    next
      case (Cons c2 cs2)
      have "(b0 mod 0x10) * 0x1000 + (of_char c1 mod 0x40) * 0x40 + of_char c2 mod 0x40 \<noteq> (9::nat)"
        if r: "in_range (if b0 = 0xE0 then 0xA0 else 0x80) (if b0 = 0xED then 0x9F else 0xBF) c1"
      proof (cases "b0 mod 0x10 = 0")
        case True
        from mod16_zero [OF b True] have e: "b0 = 0xE0" .
        with r have "0x90 \<le> (of_char c1 :: nat)" "(of_char c1 :: nat) \<le> 0xBF"
          by (simp_all add: in_range_def)
        then have "(of_char c1 :: nat) mod 0x40 \<noteq> 0" by (rule mod64_nonzero)
        from high_part_not_tab [OF this, of "0x40" "of_char c2 mod 0x40"] True
        show ?thesis by simp
      next
        case False
        from high_part_not_tab [OF False, of "0x1000"
            "(of_char c1 mod 0x40) * 0x40 + of_char c2 mod 0x40"]
        show ?thesis by (simp add: add.assoc)
      qed
      then show ?thesis by (simp add: c1 Cons decode3_def RuneError_not_tab)
    qed
  qed
qed

lemma decode4_rune: "0xF0 \<le> b0 \<Longrightarrow> b0 \<le> 0xF4 \<Longrightarrow> fst (decode4 b0 cs) \<noteq> 9"
proof -
  assume b: "0xF0 \<le> b0" "b0 \<le> 0xF4"
  show ?thesis
  proof (cases cs)
    case Nil
    then show ?thesis by (simp add: decode4_def RuneError_not_tab)
  next
    case c1: (Cons c1 cs1)
    show ?thesis
    proof (cases cs1)
      case Nil
      with c1 show ?thesis by (simp add: decode4_def RuneError_not_tab)
    next
      case c2: (Cons c2 cs2)
      show ?thesis
      proof (cases cs2)
        case Nil
        with c1 c2 show ?thesis by (simp add: decode4_def RuneError_not_tab)
      next
        case (Cons c3 cs3)
        have "(b0 mod 8) * 0x40000 + (of_char c1 mod 0x40) * 0x1000
                + (of_char c2 mod 0x40) * 0x40 + of_char c3 mod 0x40 \<noteq> (9::nat)"
          if r: "in_range (if b0 = 0xF0 then 0x90 else 0x80) (if b0 = 0xF4 then 0x8F else 0xBF) c1"
        proof (cases "b0 mod 8 = 0")
          case True
          from mod8_zero [OF b True] have e: "b0 = 0xF0" .
          with r have "0x90 \<le> (of_char c1 :: nat)" "(of_char c1 :: nat) \<le> 0xBF"
            by (simp_all add: in_range_def)
          then have "(of_char c1 :: nat) mod 0x40 \<noteq> 0" by (rule mod64_nonzero)
          from high_part_not_tab [OF this, of "0x1000"
              "(of_char c2 mod 0x40) * 0x40 + of_char c3 mod 0x40"] True
          show ?thesis by (simp add: add.assoc)
        next
          case False
          from high_part_not_tab [OF False, of "0x40000"
              "(of_char c1 mod 0x40) * 0x1000 + (of_char c2 mod 0x40) * 0x40 + of_char c3 mod 0x40"]
          show ?thesis by (simp add: add.assoc)
        qed
        then show ?thesis by (simp add: c1 c2 Cons decode4_def RuneError_not_tab)
      qed
    qed
  qed
qed

lemma DecodeRuneInString_tab:
  "fst (DecodeRuneInString (c # cs)) = 9 \<longleftrightarrow> c = CHR 0x09"
proof (cases "c = CHR 0x09")
  case True
  then show ?thesis by simp
next
  case False
  then have n: "(of_char c :: nat) \<noteq> 9" by (simp add: of_char_tab)
  from n decode2_rune [of "of_char c" cs] decode3_rune [of "of_char c" cs]
    decode4_rune [of "of_char c" cs] False
  show ?thesis by (simp add: Let_def RuneError_not_tab not_less)
qed


lemma decode2_skip: "\<forall>x\<in>set (take (snd (decode2 b0 cs) - 1) cs). x \<noteq> CHR 0x09"
proof (cases cs)
  case Nil
  then show ?thesis by simp
next
  case (Cons c1 cs1)
  then show ?thesis
    using in_range_not_tab [of "0x80" "0xBF" c1] by (simp add: decode2_def)
qed

lemma decode3_skip: "\<forall>x\<in>set (take (snd (decode3 b0 cs) - 1) cs). x \<noteq> CHR 0x09"
proof (cases cs)
  case Nil
  then show ?thesis by simp
next
  case c1: (Cons c1 cs1)
  show ?thesis
  proof (cases cs1)
    case Nil
    with c1 show ?thesis by (simp add: decode3_def)
  next
    case (Cons c2 cs2)
    have "c1 \<noteq> CHR 0x09 \<and> c2 \<noteq> CHR 0x09"
      if "in_range (if b0 = 0xE0 then 0xA0 else 0x80) (if b0 = 0xED then 0x9F else 0xBF) c1"
        and "in_range 0x80 0xBF c2"
      using that in_range_not_tab [of _ _ c1] in_range_not_tab [of _ _ c2]
      by (auto split: if_splits)
    then show ?thesis by (simp add: c1 Cons decode3_def)
  qed
qed

lemma decode4_skip: "\<forall>x\<in>set (take (snd (decode4 b0 cs) - 1) cs). x \<noteq> CHR 0x09"
proof (cases cs)
  case Nil
  then show ?thesis by simp
next
  case c1: (Cons c1 cs1)
  show ?thesis
  proof (cases cs1)
    case Nil
    with c1 show ?thesis by (simp add: decode4_def)
  next
    case c2: (Cons c2 cs2)
    show ?thesis
    proof (cases cs2)
      case Nil
      with c1 c2 show ?thesis by (simp add: decode4_def)
    next
      case (Cons c3 cs3)
      have "c1 \<noteq> CHR 0x09 \<and> c2 \<noteq> CHR 0x09 \<and> c3 \<noteq> CHR 0x09"
        if "in_range (if b0 = 0xF0 then 0x90 else 0x80) (if b0 = 0xF4 then 0x8F else 0xBF) c1"
          and "in_range 0x80 0xBF c2" and "in_range 0x80 0xBF c3"
        using that in_range_not_tab [of _ _ c1] in_range_not_tab [of _ _ c2]
          in_range_not_tab [of _ _ c3]
        by (auto split: if_splits)
      then show ?thesis by (simp add: c1 c2 Cons decode4_def)
    qed
  qed
qed

lemma DecodeRuneInString_skip:
  "\<forall>x\<in>set (take (snd (DecodeRuneInString (c # cs)) - 1) cs). x \<noteq> CHR 0x09"
  using decode2_skip [of "of_char c" cs] decode3_skip [of "of_char c" cs]
    decode4_skip [of "of_char c" cs]
  by (simp add: Let_def)

lemma tab_positions_drop:
  "\<forall>x\<in>set (take k cs). x \<noteq> CHR 0x09 \<Longrightarrow>
     tab_positions i cs = tab_positions (i + k) (drop k cs)"
proof (induction cs arbitrary: i k)
  case Nil
  then show ?case by simp
next
  case (Cons c cs)
  show ?case
  proof (cases k)
    case 0
    then show ?thesis by simp
  next
    case (Suc k')
    with Cons.prems have "c \<noteq> CHR 0x09" and "\<forall>x\<in>set (take k' cs). x \<noteq> CHR 0x09"
      by simp_all
    with Cons.IH [of k' "Suc i"] Suc show ?thesis by simp
  qed
qed

lemma range_from_tabs:
  "map fst (filter (\<lambda>ir. snd ir = 9) (range_from i s)) = tab_positions i s"
proof (induction i s rule: range_from.induct)
  case (1 i s)
  show ?case
  proof (cases s)
    case Nil
    then show ?thesis by simp
  next
    case (Cons c cs)
    let ?w = "snd (DecodeRuneInString (c # cs))"
    from DecodeRuneInString_width [of "c # cs"] have w: "1 \<le> ?w" by simp
    then have d: "drop ?w (c # cs) = drop (?w - 1) cs"
      by (cases ?w) simp_all
    have "tab_positions (Suc i) cs = tab_positions (Suc i + (?w - 1)) (drop (?w - 1) cs)"
      using DecodeRuneInString_skip [of c cs] by (rule tab_positions_drop)
    also have "Suc i + (?w - 1) = i + ?w" using w by simp
    finally have t: "tab_positions (Suc i) cs = tab_positions (i + ?w) (drop ?w (c # cs))"
      by (simp only: d)
    from "1.IH" [of] Cons
    have ih: "map fst (filter (\<lambda>ir. snd ir = 9) (range_from (i + ?w) (drop ?w (c # cs)))) =
        tab_positions (i + ?w) (drop ?w (c # cs))"
      by simp
    have "map fst (filter (\<lambda>ir. snd ir = 9) (range_from i (c # cs))) =
        (if fst (DecodeRuneInString (c # cs)) = 9 then [i] else [])
        @ map fst (filter (\<lambda>ir. snd ir = 9) (range_from (i + ?w) (drop ?w (c # cs))))"
      by (subst range_from_nonempty) (simp_all del: DecodeRuneInString.simps)
    also have "\<dots> = (if c = CHR 0x09 then [i] else []) @ tab_positions (Suc i) cs"
      by (simp only: ih t DecodeRuneInString_tab)
    also have "\<dots> = tab_positions i (c # cs)"
      by simp
    finally show ?thesis by (simp only: Cons)
  qed
qed


lemma tab_positions_empty: "tab_positions i s = [] \<longleftrightarrow> CHR 0x09 \<notin> set s"
  by (induction s arbitrary: i) auto

lemma tab_positions_bound:
  "tab_positions i s \<noteq> [] \<Longrightarrow>
     i + length (tab_positions i s) \<le> Suc (last (tab_positions i s))"
proof (induction s arbitrary: i)
  case Nil
  then show ?case by simp
next
  case (Cons c cs)
  show ?case
  proof (cases "tab_positions (Suc i) cs = []")
    case True
    with Cons.prems show ?thesis by (simp split: if_splits)
  next
    case False
    from Cons.IH [OF False] show ?thesis using False by simp
  qed
qed

lemma tab_positions_prefix:
  "(tab_positions i s \<noteq> [] \<and> Suc (last (tab_positions i s)) = i + length (tab_positions i s))
     \<longleftrightarrow> (\<exists>k rest. 0 < k \<and> s = replicate k (CHR 0x09) @ rest \<and> CHR 0x09 \<notin> set rest)"
proof (induction s arbitrary: i)
  case Nil
  show ?case by simp
next
  case (Cons c cs)
  let ?ps = "tab_positions (Suc i) cs"
  show ?case
  proof (cases "c = CHR 0x09")
    case False
    have p: "tab_positions i (c # cs) = ?ps" using False by simp
    have "\<not> (?ps \<noteq> [] \<and> Suc (last ?ps) = i + length ?ps)"
      using tab_positions_bound [of "Suc i" cs] by auto
    moreover have "\<not> (\<exists>k rest. 0 < k \<and> c # cs = replicate k (CHR 0x09) @ rest
        \<and> CHR 0x09 \<notin> set rest)"
    proof
      assume "\<exists>k rest. 0 < k \<and> c # cs = replicate k (CHR 0x09) @ rest \<and> CHR 0x09 \<notin> set rest"
      then obtain k rest where "0 < k" and e: "c # cs = replicate k (CHR 0x09) @ rest" by blast
      then obtain j where "k = Suc j" by (cases k) auto
      with e have "c = CHR 0x09" by simp
      with False show False ..
    qed
    ultimately show ?thesis unfolding p by blast
  next
    case True
    show ?thesis
    proof (cases "?ps = []")
      case e: True
      then have "CHR 0x09 \<notin> set cs" by (simp add: tab_positions_empty)
      then have "c # cs = replicate 1 (CHR 0x09) @ cs \<and> CHR 0x09 \<notin> set cs"
        using True by simp
      then have "\<exists>k rest. 0 < k \<and> c # cs = replicate k (CHR 0x09) @ rest \<and> CHR 0x09 \<notin> set rest"
        by (intro exI [of _ 1] exI [of _ cs]) simp
      with True e show ?thesis by simp
    next
      case ne: False
      have l: "(tab_positions i (c # cs) \<noteq> []
            \<and> Suc (last (tab_positions i (c # cs))) = i + length (tab_positions i (c # cs)))
          \<longleftrightarrow> (?ps \<noteq> [] \<and> Suc (last ?ps) = Suc i + length ?ps)"
        using True ne by simp
      have r: "(\<exists>k rest. 0 < k \<and> c # cs = replicate k (CHR 0x09) @ rest \<and> CHR 0x09 \<notin> set rest)
          \<longleftrightarrow> (\<exists>k rest. 0 < k \<and> cs = replicate k (CHR 0x09) @ rest \<and> CHR 0x09 \<notin> set rest)"
      proof
        assume "\<exists>k rest. 0 < k \<and> c # cs = replicate k (CHR 0x09) @ rest \<and> CHR 0x09 \<notin> set rest"
        then obtain k rest where k: "0 < k" and e: "c # cs = replicate k (CHR 0x09) @ rest"
          and n: "CHR 0x09 \<notin> set rest" by blast
        from k obtain j where j: "k = Suc j" by (cases k) auto
        with e have cs: "cs = replicate j (CHR 0x09) @ rest" by simp
        have "0 < j"
        proof (rule ccontr)
          assume "\<not> 0 < j"
          with cs n have "CHR 0x09 \<notin> set cs" by simp
          with ne show False by (simp add: tab_positions_empty)
        qed
        with cs n show "\<exists>k rest. 0 < k \<and> cs = replicate k (CHR 0x09) @ rest \<and> CHR 0x09 \<notin> set rest"
          by blast
      next
        assume "\<exists>k rest. 0 < k \<and> cs = replicate k (CHR 0x09) @ rest \<and> CHR 0x09 \<notin> set rest"
        then obtain k rest where "0 < k" and "cs = replicate k (CHR 0x09) @ rest"
          and "CHR 0x09 \<notin> set rest" by blast
        with True have "0 < Suc k \<and> c # cs = replicate (Suc k) (CHR 0x09) @ rest
            \<and> CHR 0x09 \<notin> set rest"
          by simp
        then show "\<exists>k rest. 0 < k \<and> c # cs = replicate k (CHR 0x09) @ rest \<and> CHR 0x09 \<notin> set rest"
          by blast
      qed
      from Cons.IH [of "Suc i"] l r show ?thesis by simp
    qed
  qed
qed

lemma loop_body_tabs:
  "loop_body fl v ir = Inr v' \<Longrightarrow>
     tabCount v' = (if snd ir = 9 then tabCount v + 1 else tabCount v)
     \<and> lastTab v' = (if snd ir = 9 then int (fst ir) else lastTab v)"
  by (cases ir) (auto simp: loop_body_def Let_def split: if_splits)

lemma scan_tabs:
  "scan fl v irs = Inr v' \<Longrightarrow>
     tabCount v' = tabCount v + int (length (filter (\<lambda>ir. snd ir = 9) irs))
     \<and> lastTab v' =
         (if filter (\<lambda>ir. snd ir = 9) irs = [] then lastTab v
          else int (last (map fst (filter (\<lambda>ir. snd ir = 9) irs))))"
proof (induction irs arbitrary: v)
  case Nil
  then show ?case by simp
next
  case (Cons ir irs)
  from Cons.prems obtain v1 where b: "loop_body fl v ir = Inr v1" and s: "scan fl v1 irs = Inr v'"
    by (auto split: sum.splits)
  from loop_body_tabs [OF b] Cons.IH [OF s] show ?case by simp
qed

lemma readline_tabs:
  assumes "readline fl cstr = Inr l"
  shows "quoted l =
           (\<not> blank l \<and> tab_positions 0 (strip_slash cstr) \<noteq> []
            \<and> Suc (last (tab_positions 0 (strip_slash cstr)))
                = length (tab_positions 0 (strip_slash cstr)))"
    and "tabular l = (\<not> blank l \<and> tab_positions 0 (strip_slash cstr) \<noteq> [] \<and> \<not> quoted l)"
proof -
  let ?txt = "strip_slash cstr"
  let ?f = "filter (\<lambda>ir. snd ir = 9) (range_string ?txt)"
  from assms obtain v where v: "scan fl locals0 (range_string ?txt) = Inr v"
    and q: "quoted l = (\<not> blank l \<and> 0 < tabCount v \<and> lastTab v + 1 = tabCount v)"
    and t: "tabular l = (\<not> blank l \<and> 0 < tabCount v \<and> \<not> quoted l)"
    by (auto simp: readline_def Let_def split: sum.splits)
  have m: "map fst ?f = tab_positions 0 ?txt"
    by (simp add: range_string_def range_from_tabs)
  then have n: "length ?f = length (tab_positions 0 ?txt)"
    by (metis length_map)
  from m have e: "?f = [] \<longleftrightarrow> tab_positions 0 ?txt = []"
    by (metis map_is_Nil_conv)
  from scan_tabs [OF v] m n e
  have c: "tabCount v = int (length (tab_positions 0 ?txt))"
    and p: "tab_positions 0 ?txt \<noteq> [] \<Longrightarrow> lastTab v = int (last (tab_positions 0 ?txt))"
    by (simp_all add: locals0_def)
  from c have z: "0 < tabCount v \<longleftrightarrow> tab_positions 0 ?txt \<noteq> []" by simp
  show "quoted l =
           (\<not> blank l \<and> tab_positions 0 ?txt \<noteq> []
            \<and> Suc (last (tab_positions 0 ?txt)) = length (tab_positions 0 ?txt))"
    unfolding q z using c p by auto
  show "tabular l = (\<not> blank l \<and> tab_positions 0 ?txt \<noteq> [] \<and> \<not> quoted l)"
    unfolding t z ..
qed


text \<open>
  C1, as the program has it. A line is quoted exactly when it is not blank and all of
  its tabs stand at its very start: the text (without a final backslash) is one or
  more tabs followed by text that holds no tab, which is what
  \<open>lastTab + 1 == tabCount\<close> tests. A line that is not blank and has a tab anywhere
  else is tabular. Four spaces, a tab, then text is therefore tabular and not quoted:
  its last tab lies within the leading white space, but not at offset 0.
\<close>

theorem quoted_iff_leading_tabs:
  "(readline fl cstr = Inr l \<longrightarrow>
      quoted l =
        (\<not> blank l
         \<and> (\<exists>k rest. 0 < k \<and> strip_slash cstr = replicate k (CHR 0x09) @ rest
               \<and> CHR 0x09 \<notin> set rest)))
   \<and> (readline fl cstr = Inr l \<longrightarrow>
        tabular l = (\<not> blank l \<and> CHR 0x09 \<in> set (strip_slash cstr) \<and> \<not> quoted l))
   \<and> (tabstop_flag fl \<noteq> 0 \<longrightarrow> (\<exists>l. readline fl cstr = Inr l))"
proof (intro conjI impI)
  assume a: "readline fl cstr = Inr l"
  show "quoted l =
        (\<not> blank l
         \<and> (\<exists>k rest. 0 < k \<and> strip_slash cstr = replicate k (CHR 0x09) @ rest
               \<and> CHR 0x09 \<notin> set rest))"
    unfolding readline_tabs(1) [OF a]
    using tab_positions_prefix [of 0 "strip_slash cstr"] by simp
next
  assume a: "readline fl cstr = Inr l"
  show "tabular l = (\<not> blank l \<and> CHR 0x09 \<in> set (strip_slash cstr) \<and> \<not> quoted l)"
    unfolding readline_tabs(2) [OF a]
    using tab_positions_empty [of 0 "strip_slash cstr"] by simp
next
  assume "tabstop_flag fl \<noteq> 0"
  then show "\<exists>l. readline fl cstr = Inr l" by (rule readline_total)
qed

theorem quoted_iff_leading_tabs_witness:
  "readline default_flags ([CHR 0x09, CHR 0x09] @ ''quote me'') =
     Inr \<lparr>text' = ''quote me'', indent = 8, indented = True, incomplete = False,
            blank = False, tabular = False, quoted = True\<rparr>
   \<and> (\<exists>k rest. 0 < k
         \<and> strip_slash ([CHR 0x09, CHR 0x09] @ ''quote me'') = replicate k (CHR 0x09) @ rest
         \<and> CHR 0x09 \<notin> set rest)"
proof -
  have a: "readline default_flags ([CHR 0x09, CHR 0x09] @ ''quote me'') =
     Inr \<lparr>text' = ''quote me'', indent = 8, indented = True, incomplete = False,
            blank = False, tabular = False, quoted = True\<rparr>"
    by code_simp
  from quoted_iff_leading_tabs [of default_flags "[CHR 0x09, CHR 0x09] @ ''quote me''"
      "\<lparr>text' = ''quote me'', indent = 8, indented = True, incomplete = False,
            blank = False, tabular = False, quoted = True\<rparr>", THEN conjunct1] a
  show ?thesis by simp
qed

theorem quoted_iff_leading_tabs_counterexample:
  "readline default_flags
       (''    '' @ [CHR 0x09] @ ''nested quote text that is somewhat long indeed'') =
     Inr \<lparr>text' = ''nested quote text that is somewhat long indeed'', indent = 8,
            indented = True, incomplete = False, blank = False, tabular = True,
            quoted = False\<rparr>
   \<and> scan default_flags locals0
       (range_string (''    '' @ [CHR 0x09] @ ''nested quote text that is somewhat long indeed'')) =
     Inr \<lparr>indent_acc = 8, indentChars = 5, lastTab = 4, tabCount = 1, inIndent = False\<rparr>"
  by code_simp

section \<open>Tabular blocks\<close>

lemma column_width_field:
  "r \<in> set rows \<Longrightarrow> j < length r \<Longrightarrow> Suc (length (r ! j)) \<le> column_width rows j"
proof -
  have "r \<in> set rows \<Longrightarrow> j < length r \<Longrightarrow>
      length (r ! j) \<le> foldr (\<lambda>r m. if j < length r then max (length (r ! j)) m else m) rows 0"
    by (induction rows) auto
  then show "r \<in> set rows \<Longrightarrow> j < length r \<Longrightarrow> Suc (length (r ! j)) \<le> column_width rows j"
    by (simp add: column_width_def)
qed

lemma length_pad_field:
  "r \<in> set rows \<Longrightarrow> j < length r \<Longrightarrow> length (pad_field rows r j) = column_width rows j"
  using column_width_field [of r rows j] by (simp add: pad_field_def)

lemma align_empty: "align [] = []"
  by (simp add: align_def buffered_rows_def)

lemma format_loop_append:
  "format_loop E fl st (xs @ ys) =
     (case format_loop E fl st xs of Inl e \<Rightarrow> Inl e | Inr st' \<Rightarrow> format_loop E fl st' ys)"
  by (induction xs arbitrary: st) (simp_all split: sum.splits)

lemma format_body_prefix:
  "format_body E fl (w, out @ o') l =
     (case format_body E fl (w, o') l of
        Inl e \<Rightarrow> Inl e
      | Inr st \<Rightarrow> Inr (fst st, out @ snd st))"
  by (simp add: format_body_def split: prod.splits sum.splits)

lemma format_loop_prefix:
  "format_loop E fl (w, out @ o') ls =
     (case format_loop E fl (w, o') ls of
        Inl e \<Rightarrow> Inl e
      | Inr st \<Rightarrow> Inr (fst st, out @ snd st))"
proof (induction ls arbitrary: w o')
  case Nil
  show ?case by simp
next
  case (Cons l ls)
  show ?case
  proof (cases "format_body E fl (w, o') l")
    case (Inl e)
    then show ?thesis by (simp add: format_body_prefix)
  next
    case (Inr st)
    obtain w1 o1 where st: "st = (w1, o1)" by (cases st)
    from Inr st have "format_body E fl (w, out @ o') l = Inr (w1, out @ o1)"
      by (simp add: format_body_prefix)
    with Inr st Cons.IH [of w1 o1] show ?thesis by simp
  qed
qed

lemma spec_block:
  "\<forall>l\<in>set blk. tabular l \<Longrightarrow>
     format_loop (spec_renderer W I) fl (w, out) blk =
       Inr (w @ concat (map (\<lambda>l. text' l @ [CHR 0x0A]) blk), out)"
proof (induction blk arbitrary: w)
  case Nil
  show ?case by simp
next
  case (Cons l blk)
  then have t: "tabular l" and r: "\<forall>l\<in>set blk. tabular l" by simp_all
  have "format_body (spec_renderer W I) fl (w, out) l = Inr (w @ text' l @ [CHR 0x0A], out)"
    by (simp add: format_body_tabular [OF t] spec_renderer_def)
  with Cons.IH [OF r, of "w @ text' l @ [CHR 0x0A]"] show ?case by simp
qed

lemma spec_not_tabular:
  "\<not> tabular l \<Longrightarrow>
     format_body (spec_renderer W I) fl (w, out) l =
       (case render (spec_renderer W I) fl l of
          Inl e \<Rightarrow> Inl e
        | Inr t \<Rightarrow> Inr ([], out @ align w @ t @ [CHR 0x0A]))"
  by (simp add: format_body_not_tabular spec_renderer_def split: sum.splits)

lemma spec_writer_empty:
  "pre \<noteq> [] \<Longrightarrow> \<not> tabular (last pre) \<Longrightarrow>
     format_loop (spec_renderer W I) fl st pre = Inr st' \<Longrightarrow> fst st' = []"
proof (induction pre arbitrary: st)
  case Nil
  then show ?case by simp
next
  case (Cons l pre)
  from Cons.prems(3) obtain st1 where b: "format_body (spec_renderer W I) fl st l = Inr st1"
    and r: "format_loop (spec_renderer W I) fl st1 pre = Inr st'"
    by (auto split: sum.splits)
  show ?case
  proof (cases "pre = []")
    case True
    with Cons.prems(2) have n: "\<not> tabular l" by simp
    obtain w out where st: "st = (w, out)" by (cases st)
    from b r True show ?thesis
      unfolding st by (auto simp: spec_not_tabular [OF n] split: sum.splits)
  next
    case False
    with Cons.prems(2) have "\<not> tabular (last pre)" by simp
    from Cons.IH [OF False this r] show ?thesis .
  qed
qed

lemma spec_format:
  "format (spec_renderer W I) fl ls =
     (case format_loop (spec_renderer W I) fl ([], []) ls of
        Inl e \<Rightarrow> Inl e
      | Inr st \<Rightarrow> Inr (snd st @ align (fst st)))"
  by (simp add: format_def spec_renderer_def split: sum.splits prod.splits)

lemma spec_tail:
  assumes "post = [] \<or> \<not> tabular (hd post)"
  shows "(case format_loop (spec_renderer W I) fl (w, out) post of
            Inl e \<Rightarrow> Inl e
          | Inr st \<Rightarrow> Inr (snd st @ align (fst st))) =
         (case format (spec_renderer W I) fl post of
            Inl e \<Rightarrow> Inl e
          | Inr b \<Rightarrow> Inr (out @ align w @ b))"
proof (cases post)
  case Nil
  then show ?thesis by (simp add: spec_format align_empty)
next
  case (Cons l ls)
  with assms have n: "\<not> tabular l" by simp
  show ?thesis
  proof (cases "render (spec_renderer W I) fl l")
    case (Inl e)
    then show ?thesis by (simp add: Cons spec_format spec_not_tabular [OF n])
  next
    case (Inr t)
    have a: "format_loop (spec_renderer W I) fl (w, out) post =
        format_loop (spec_renderer W I) fl ([], (out @ align w) @ (t @ [CHR 0x0A])) ls"
      by (simp add: Cons spec_not_tabular [OF n] Inr)
    have b: "format_loop (spec_renderer W I) fl ([], []) post =
        format_loop (spec_renderer W I) fl ([], t @ [CHR 0x0A]) ls"
      by (simp add: Cons spec_not_tabular [OF n] Inr align_empty)
    show ?thesis
      unfolding spec_format a b format_loop_prefix
      by (simp split: sum.splits)
  qed
qed

lemma spec_format_split:
  assumes "pre = [] \<or> \<not> tabular (last pre)" and "\<forall>l\<in>set blk. tabular l"
    and "post = [] \<or> \<not> tabular (hd post)"
  shows "format (spec_renderer W I) fl (pre @ blk @ post) =
     (case format (spec_renderer W I) fl pre of
        Inl e \<Rightarrow> Inl e
      | Inr a \<Rightarrow>
          (case format (spec_renderer W I) fl post of
             Inl e \<Rightarrow> Inl e
           | Inr b \<Rightarrow>
               Inr (a @ align (concat (map (\<lambda>l. text' l @ [CHR 0x0A]) blk)) @ b)))"
proof (cases "format_loop (spec_renderer W I) fl ([], []) pre")
  case (Inl e)
  then show ?thesis by (simp add: spec_format format_loop_append)
next
  case (Inr st)
  have e: "fst st = []"
  proof (cases "pre = []")
    case True
    with Inr show ?thesis by auto
  next
    case False
    with assms(1) have "\<not> tabular (last pre)" by simp
    from spec_writer_empty [OF False this Inr] show ?thesis .
  qed
  then obtain o1 where st: "st = ([], o1)" by (cases st) simp
  let ?B = "concat (map (\<lambda>l. text' l @ [CHR 0x0A]) blk)"
  have p: "format (spec_renderer W I) fl pre = Inr o1"
    by (simp add: spec_format Inr st align_empty)
  have "format_loop (spec_renderer W I) fl ([], []) (pre @ blk @ post) =
      format_loop (spec_renderer W I) fl (?B, o1) post"
    using spec_block [OF assms(2), of W I fl "[]" o1]
    by (simp add: format_loop_append Inr st)
  then have "format (spec_renderer W I) fl (pre @ blk @ post) =
      (case format_loop (spec_renderer W I) fl (?B, o1) post of
         Inl e \<Rightarrow> Inl e
       | Inr st \<Rightarrow> Inr (snd st @ align (fst st)))"
    by (simp add: spec_format)
  also have "\<dots> = (case format (spec_renderer W I) fl post of
            Inl e \<Rightarrow> Inl e
          | Inr b \<Rightarrow> Inr (o1 @ align ?B @ b))"
    by (rule spec_tail [OF assms(3)])
  finally show ?thesis by (simp add: p)
qed

text \<open>
  C8, for the renderer as the specification describes it. Within the rows the renderer
  holds when it is flushed, the width of a column is at least the width of every field
  in that column plus one separator space, and every field is rendered padded to exactly
  that width. \<open>format\<close> flushes the renderer at every line that is not tabular and at
  the end, so a run of tabular lines bounded by lines that are not tabular (or by the
  ends of the sequence) is rendered from its own lines alone: the output is what comes
  before the run, then the alignment of the run's lines, then what comes after.
\<close>

theorem tabular_block_columns:
  "(r \<in> set (buffered_rows buf) \<longrightarrow> j < length r \<longrightarrow>
      length (r ! j) + 1 \<le> column_width (buffered_rows buf) j
      \<and> length (pad_field (buffered_rows buf) r j) = column_width (buffered_rows buf) j
      \<and> take (length (r ! j)) (pad_field (buffered_rows buf) r j) = r ! j)
   \<and> snd (Flush (spec_renderer W I) buf) =
       concat (map (\<lambda>r. concat (map (pad_field (buffered_rows buf) r) [0..<length r])
                          @ [CHR 0x0A])
                 (buffered_rows buf))
   \<and> ((pre = [] \<or> \<not> tabular (last pre)) \<longrightarrow> (\<forall>l\<in>set blk. tabular l) \<longrightarrow>
       (post = [] \<or> \<not> tabular (hd post)) \<longrightarrow>
        format (spec_renderer W I) fl (pre @ blk @ post) =
          (case format (spec_renderer W I) fl pre of
             Inl e \<Rightarrow> Inl e
           | Inr a \<Rightarrow>
               (case format (spec_renderer W I) fl post of
                  Inl e \<Rightarrow> Inl e
                | Inr b \<Rightarrow>
                    Inr (a @ snd (Flush (spec_renderer W I)
                                    (concat (map (\<lambda>l. text' l @ [CHR 0x0A]) blk)))
                           @ b))))"
proof (intro conjI impI)
  assume a: "r \<in> set (buffered_rows buf)" "j < length r"
  from column_width_field [OF a] show "length (r ! j) + 1 \<le> column_width (buffered_rows buf) j"
    by simp
  from length_pad_field [OF a]
  show "length (pad_field (buffered_rows buf) r j) = column_width (buffered_rows buf) j" .
  show "take (length (r ! j)) (pad_field (buffered_rows buf) r j) = r ! j"
    by (simp add: pad_field_def)
next
  show "snd (Flush (spec_renderer W I) buf) =
       concat (map (\<lambda>r. concat (map (pad_field (buffered_rows buf) r) [0..<length r])
                          @ [CHR 0x0A])
                 (buffered_rows buf))"
    by (simp add: spec_renderer_def align_def align_row_def)
next
  assume a: "pre = [] \<or> \<not> tabular (last pre)" "\<forall>l\<in>set blk. tabular l"
    "post = [] \<or> \<not> tabular (hd post)"
  have f: "snd (Flush (spec_renderer W I) b) = align b" for b
    by (simp add: spec_renderer_def)
  show "format (spec_renderer W I) fl (pre @ blk @ post) =
          (case format (spec_renderer W I) fl pre of
             Inl e \<Rightarrow> Inl e
           | Inr a \<Rightarrow>
               (case format (spec_renderer W I) fl post of
                  Inl e \<Rightarrow> Inl e
                | Inr b \<Rightarrow>
                    Inr (a @ snd (Flush (spec_renderer W I)
                                    (concat (map (\<lambda>l. text' l @ [CHR 0x0A]) blk)))
                           @ b)))"
    unfolding f by (rule spec_format_split [OF a])
qed

theorem tabular_block_columns_witness:
  "buffered_rows (''one'' @ [CHR 0x09] @ ''two'' @ [CHR 0x0A] @ ''1'' @ [CHR 0x09] @ ''22''
       @ [CHR 0x0A]) = [[''one'', ''two''], [''1'', ''22'']]
   \<and> length ([''1'', ''22''] ! 0) + 1 \<le> column_width [[''one'', ''two''], [''1'', ''22'']] 0
   \<and> column_width [[''one'', ''two''], [''1'', ''22'']] 0 = 4
   \<and> pad_field [[''one'', ''two''], [''1'', ''22'']] [''1'', ''22''] 0 = ''1   ''
   \<and> format (spec_renderer (\<lambda>s n. s) (\<lambda>s p. p @ s)) default_flags
        ([\<lparr>text' = ''head'', indent = 0, indented = False, incomplete = False,
            blank = False, tabular = False, quoted = False\<rparr>]
         @ [\<lparr>text' = ''one'' @ [CHR 0x09] @ ''two'', indent = 0, indented = False,
              incomplete = False, blank = False, tabular = True, quoted = False\<rparr>,
            \<lparr>text' = ''1'' @ [CHR 0x09] @ ''22'', indent = 0, indented = False,
              incomplete = False, blank = False, tabular = True, quoted = False\<rparr>]
         @ [\<lparr>text' = ''tail'', indent = 0, indented = False, incomplete = False,
              blank = False, tabular = False, quoted = False\<rparr>]) =
       Inr (''head'' @ [CHR 0x0A] @ ''one two '' @ [CHR 0x0A] @ ''1   22  '' @ [CHR 0x0A]
            @ ''tail'' @ [CHR 0x0A])"
proof -
  let ?S = "spec_renderer (\<lambda>s n. s) (\<lambda>s p. p @ s)"
  let ?buf = "''one'' @ [CHR 0x09] @ ''two'' @ [CHR 0x0A] @ ''1'' @ [CHR 0x09] @ ''22''
       @ [CHR 0x0A]"
  let ?rows = "[[''one'', ''two''], [''1'', ''22'']]"
  let ?pre = "[\<lparr>text' = ''head'', indent = 0, indented = False, incomplete = False,
            blank = False, tabular = False, quoted = False\<rparr>]"
  let ?blk = "[\<lparr>text' = ''one'' @ [CHR 0x09] @ ''two'', indent = 0, indented = False,
              incomplete = False, blank = False, tabular = True, quoted = False\<rparr>,
            \<lparr>text' = ''1'' @ [CHR 0x09] @ ''22'', indent = 0, indented = False,
              incomplete = False, blank = False, tabular = True, quoted = False\<rparr>]"
  let ?post = "[\<lparr>text' = ''tail'', indent = 0, indented = False, incomplete = False,
              blank = False, tabular = False, quoted = False\<rparr>]"
  have rows: "buffered_rows ?buf = ?rows"
    by (simp add: buffered_rows_def)
  have cw: "column_width ?rows 0 = 4"
    by (simp add: column_width_def)
  have pf: "pad_field ?rows [''1'', ''22''] 0 = ''1   ''"
    by (simp add: pad_field_def column_width_def numeral_3_eq_3)
  have pre: "format ?S default_flags ?pre = Inr (''head'' @ [CHR 0x0A])"
    by (simp add: format_def format_body_def render_def spec_renderer_def align_empty)
  have post: "format ?S default_flags ?post = Inr (''tail'' @ [CHR 0x0A])"
    by (simp add: format_def format_body_def render_def spec_renderer_def align_empty)
  have fl: "snd (Flush ?S ?buf) = ''one two '' @ [CHR 0x0A] @ ''1   22  '' @ [CHR 0x0A]"
    by (simp add: spec_renderer_def align_def align_row_def pad_field_def rows [simplified]
        column_width_def upt_rec)
  note t = tabular_block_columns [of "[''1'', ''22'']" ?buf 0 "\<lambda>s n. s" "\<lambda>s p. p @ s"
      ?pre ?blk ?post default_flags]
  from t rows have w: "length ([''1'', ''22''] ! 0) + 1 \<le> column_width ?rows 0"
    by simp
  from t have "format ?S default_flags (?pre @ ?blk @ ?post) =
      Inr (''head'' @ [CHR 0x0A] @ snd (Flush ?S ?buf) @ ''tail'' @ [CHR 0x0A])"
    by (simp add: pre [simplified] post [simplified])
  with fl have f: "format ?S default_flags (?pre @ ?blk @ ?post) =
       Inr (''head'' @ [CHR 0x0A] @ ''one two '' @ [CHR 0x0A] @ ''1   22  '' @ [CHR 0x0A]
            @ ''tail'' @ [CHR 0x0A])"
    by simp
  from rows w cw pf f show ?thesis by blast
qed

section \<open>Rows of wrapped lines\<close>

lemma split_on_nonempty: "split_on d t \<noteq> []"
  by (induction t) (auto split: list.splits)

lemma split_on_no_delim: "r \<in> set (split_on d t) \<Longrightarrow> d \<notin> set r"
proof (induction t arbitrary: r)
  case Nil
  then show ?case by simp
next
  case (Cons c t)
  show ?case
  proof (cases "c = d")
    case True
    with Cons show ?thesis by auto
  next
    case False
    obtain f fs where s: "split_on d t = f # fs"
      using split_on_nonempty [of d t] by (cases "split_on d t") auto
    with Cons.prems False have "r = c # f \<or> r \<in> set fs" by simp
    then show ?thesis
    proof
      assume "r = c # f"
      moreover have "d \<notin> set f" using Cons.IH [of f] s by simp
      ultimately show ?thesis using False by auto
    next
      assume "r \<in> set fs"
      then show ?thesis using Cons.IH [of r] s by simp
    qed
  qed
qed

lemma split_on_append:
  "d \<notin> set a \<Longrightarrow> split_on d (a @ b) = (a @ hd (split_on d b)) # tl (split_on d b)"
proof (induction a)
  case Nil
  then show ?case using split_on_nonempty [of d b] by simp
next
  case (Cons c a)
  then have "c \<noteq> d" and "d \<notin> set a" by auto
  with Cons.IH show ?case by simp
qed

lemma split_on_unrows:
  "xs \<noteq> [] \<Longrightarrow> \<forall>x\<in>set xs. CHR 0x0A \<notin> set x \<Longrightarrow> split_on (CHR 0x0A) (unrows xs) = xs"
proof (induction xs rule: unrows.induct)
  case 1
  then show ?case by simp
next
  case (2 r)
  then have "CHR 0x0A \<notin> set r" by simp
  from split_on_append [OF this, of "[]"] show ?case by simp
next
  case (3 r r' rs)
  then have n: "CHR 0x0A \<notin> set r" and ih: "split_on (CHR 0x0A) (unrows (r' # rs)) = r' # rs"
    by simp_all
  from split_on_append [OF n, of "CHR 0x0A # unrows (r' # rs)"] ih
  show ?case by simp
qed

lemma rows_nonempty: "rows_of t \<noteq> []"
  by (simp add: rows_of_def split_on_nonempty)

lemma rows_no_newline: "r \<in> set (rows_of t) \<Longrightarrow> CHR 0x0A \<notin> set r"
  unfolding rows_of_def by (rule split_on_no_delim)






text \<open>
  The wrap routine written after the specification keeps every row within the limit
  unless the row is a single word, whatever the text and the limit are.
\<close>

lemma split_on_subset: "r \<in> set (split_on d t) \<Longrightarrow> set r \<subseteq> set t"
proof (induction t arbitrary: r)
  case Nil
  then show ?case by simp
next
  case (Cons c t)
  show ?case
  proof (cases "c = d")
    case True
    with Cons show ?thesis by auto
  next
    case False
    obtain f fs where s: "split_on d t = f # fs"
      using split_on_nonempty [of d t] by (cases "split_on d t") auto
    with False Cons.prems have "r = c # f \<or> r \<in> set fs" by simp
    then show ?thesis
    proof
      assume "r = c # f"
      moreover have "set f \<subseteq> set t" using Cons.IH [of f] s by simp
      ultimately show ?thesis by auto
    next
      assume "r \<in> set fs"
      then have "set r \<subseteq> set t" using Cons.IH [of r] s by simp
      then show ?thesis by auto
    qed
  qed
qed

lemma words_of_word:
  assumes "w \<in> set (words_of t)"
  shows "CHR 0x20 \<notin> set w" and "CHR 0x0A \<notin> set w"
proof -
  let ?t = "map (\<lambda>c. if c \<in> {CHR 0x09, CHR 0x0A, CHR 0x0B, CHR 0x0C, CHR 0x0D}
                    then CHR 0x20 else c) t"
  from assms have w: "w \<in> set (split_on (CHR 0x20) ?t)"
    by (simp add: words_of_def)
  then show "CHR 0x20 \<notin> set w" by (rule split_on_no_delim)
  have "CHR 0x0A \<notin> set ?t" by auto
  with split_on_subset [OF w] show "CHR 0x0A \<notin> set w" by blast
qed

lemma fill_rows_nonempty: "fill_rows lim cur ws \<noteq> []"
  by (induction ws arbitrary: cur) auto

lemma fill_rows_no_newline:
  "CHR 0x0A \<notin> set cur \<Longrightarrow> \<forall>w\<in>set ws. CHR 0x0A \<notin> set w \<Longrightarrow>
     r \<in> set (fill_rows lim cur ws) \<Longrightarrow> CHR 0x0A \<notin> set r"
proof (induction ws arbitrary: cur)
  case Nil
  then show ?case by simp
next
  case (Cons w ws)
  show ?case
  proof (cases "length cur + 1 + length w \<le> lim")
    case True
    with Cons.prems have m: "r \<in> set (fill_rows lim (cur @ [CHR 0x20] @ w) ws)" by simp
    have n: "CHR 0x0A \<notin> set (cur @ [CHR 0x20] @ w)" using Cons.prems by simp
    have a: "\<forall>w\<in>set ws. CHR 0x0A \<notin> set w" using Cons.prems(2) by simp
    show ?thesis by (rule Cons.IH [OF n a m])
  next
    case False
    with Cons.prems have "r = cur \<or> r \<in> set (fill_rows lim w ws)" by simp
    then show ?thesis using Cons.IH [of w] Cons.prems by auto
  qed
qed

lemma fill_rows_kept:
  "length cur \<le> lim \<or> CHR 0x20 \<notin> set cur \<Longrightarrow> \<forall>w\<in>set ws. CHR 0x20 \<notin> set w \<Longrightarrow>
     r \<in> set (fill_rows lim cur ws) \<Longrightarrow> length r \<le> lim \<or> CHR 0x20 \<notin> set r"
proof (induction ws arbitrary: cur)
  case Nil
  then show ?case by simp
next
  case (Cons w ws)
  show ?case
  proof (cases "length cur + 1 + length w \<le> lim")
    case True
    with Cons.prems have m: "r \<in> set (fill_rows lim (cur @ [CHR 0x20] @ w) ws)" by simp
    have n: "length (cur @ [CHR 0x20] @ w) \<le> lim \<or> CHR 0x20 \<notin> set (cur @ [CHR 0x20] @ w)"
      using True by simp
    have a: "\<forall>w\<in>set ws. CHR 0x20 \<notin> set w" using Cons.prems(2) by simp
    show ?thesis by (rule Cons.IH [OF n a m])
  next
    case False
    with Cons.prems have "r = cur \<or> r \<in> set (fill_rows lim w ws)" by simp
    then show ?thesis using Cons.IH [of w] Cons.prems by auto
  qed
qed

lemma fill_rows_not_empty_row:
  "cur \<noteq> [] \<Longrightarrow> \<forall>w\<in>set ws. w \<noteq> [] \<Longrightarrow> r \<in> set (fill_rows lim cur ws) \<Longrightarrow> r \<noteq> []"
proof (induction ws arbitrary: cur)
  case Nil
  then show ?case by simp
next
  case (Cons w ws)
  show ?case
  proof (cases "length cur + 1 + length w \<le> lim")
    case True
    with Cons.prems have "r \<in> set (fill_rows lim (cur @ [CHR 0x20] @ w) ws)" by simp
    then show ?thesis using Cons.IH [of "cur @ [CHR 0x20] @ w"] Cons.prems(2) by simp
  next
    case False
    with Cons.prems have "r = cur \<or> r \<in> set (fill_rows lim w ws)" by simp
    then show ?thesis using Cons.IH [of w] Cons.prems by auto
  qed
qed

lemma Wrap_spec_kept_within: "kept_within lim (Wrap_spec t lim)"
proof (cases "words_of t")
  case Nil
  then show ?thesis
    by (simp add: Wrap_spec_def kept_within_def rows_of_def single_word_def)
next
  case (Cons w ws)
  let ?rs = "fill_rows (nat lim) w ws"
  have mem: "v \<in> set (words_of t)" if "v \<in> set (w # ws)" for v
    using that Cons by simp
  have sp: "CHR 0x20 \<notin> set v" if "v \<in> set (w # ws)" for v
    by (rule words_of_word(1) [OF mem [OF that]])
  have nl: "CHR 0x0A \<notin> set v" if "v \<in> set (w # ws)" for v
    by (rule words_of_word(2) [OF mem [OF that]])
  have ne: "v \<noteq> []" if "v \<in> set (w # ws)" for v
    using mem [OF that] by (simp add: words_of_def)
  have rows: "rows_of (Wrap_spec t lim) = ?rs"
    unfolding Wrap_spec_def rows_of_def Cons list.case
  proof (rule split_on_unrows)
    show "?rs \<noteq> []" by (rule fill_rows_nonempty)
    show "\<forall>x\<in>set ?rs. CHR 0x0A \<notin> set x"
    proof
      fix x assume x: "x \<in> set ?rs"
      show "CHR 0x0A \<notin> set x"
        by (rule fill_rows_no_newline [OF _ _ x]) (simp_all add: nl)
    qed
  qed
  have "int (length r) \<le> lim \<or> single_word r" if r: "r \<in> set ?rs" for r
  proof -
    have "length r \<le> nat lim \<or> CHR 0x20 \<notin> set r"
      by (rule fill_rows_kept [OF _ _ r]) (simp_all add: sp)
    moreover have "r \<noteq> []"
      by (rule fill_rows_not_empty_row [OF _ _ r]) (simp_all add: ne)
    then have "0 < length r" by simp
    then have "length r \<le> nat lim \<Longrightarrow> int (length r) \<le> lim" by arith
    ultimately show ?thesis by (auto simp: single_word_def)
  qed
  with rows show ?thesis by (simp add: kept_within_def)
qed

section \<open>Wrapping by category: the rows of the output\<close>




end
